theory Spec2Isabelle
  imports Complex_Main "HOL-Library.Multiset" "HOL-Library.Product_Lexorder"
begin

section \<open>Common conventions\<close>

text \<open>
  The C++ sources are embedded as pure functions. A read outside a vector, a failed
  \<^verbatim>\<open>assert\<close> and a call of \<^verbatim>\<open>ABORT\<close> are values of the type \<open>error\<close>; a function
  that can hit one of them returns \<open>error + 'a\<close>, with \<open>Inl\<close> for the error.
  Variable ids, pattern ids, fact ids and values index vectors and are natural numbers;
  scores, costs and heuristic values are integers.
\<close>

datatype error = AssertionViolation | Abort | OutOfRange

definition bindE :: "error + 'a \<Rightarrow> ('a \<Rightarrow> error + 'b) \<Rightarrow> error + 'b" where
  "bindE m f = (case m of Inl e \<Rightarrow> Inl e | Inr x \<Rightarrow> f x)"

fun mapE :: "('a \<Rightarrow> error + 'b) \<Rightarrow> 'a list \<Rightarrow> error + 'b list" where
  "mapE f [] = Inr []"
| "mapE f (x # xs) = bindE (f x) (\<lambda>y. bindE (mapE f xs) (\<lambda>ys. Inr (y # ys)))"

definition vec_at :: "'a list \<Rightarrow> nat \<Rightarrow> error + 'a" where
  "vec_at xs i = (if i < length xs then Inr (xs ! i) else Inl OutOfRange)"

definition INT_MAX :: int where
  "INT_MAX = 2147483647"

text \<open>The value a signed 32-bit \<^verbatim>\<open>int\<close> holds after an arithmetic result \<open>x\<close> is stored in it.\<close>

definition wrap32 :: "int \<Rightarrow> int" where
  "wrap32 x = (x + 2147483648) mod 4294967296 - 2147483648"

section \<open>pdbs/pattern\_collection\_generator\_filtered\_systematic.cc\<close>

subsection \<open>Pattern scores\<close>

text \<open>
  Modelled from the spec: \<^verbatim>\<open>utils::is_product_within_limit\<close> (utils/math.h) is not among
  the sources. The spec skips a candidate when its size product "exceeds representable
  range", so the test says that the exact product of the two factors stays within the limit.
\<close>

definition is_product_within_limit :: "int \<Rightarrow> int \<Rightarrow> int \<Rightarrow> bool" where
  "is_product_within_limit factor1 factor2 limit = (factor1 * factor2 \<le> limit)"

text \<open>
  \<^verbatim>\<open>get_pdb_size\<close>: the loop over the pattern, started with \<^verbatim>\<open>size = 1\<close>. The product
  is stored in an \<^verbatim>\<open>int\<close>, hence \<open>wrap32\<close>.
\<close>

fun get_pdb_size_from :: "int list \<Rightarrow> int \<Rightarrow> nat list \<Rightarrow> error + int" where
  "get_pdb_size_from domain_sizes sz [] = Inr sz"
| "get_pdb_size_from domain_sizes sz (var # pattern) =
     bindE (vec_at domain_sizes var) (\<lambda>d.
       if is_product_within_limit sz d INT_MAX
       then get_pdb_size_from domain_sizes (wrap32 (sz * d)) pattern
       else Inr (- 1))"

definition get_pdb_size :: "int list \<Rightarrow> nat list \<Rightarrow> error + int" where
  "get_pdb_size domain_sizes pattern = get_pdb_size_from domain_sizes 1 pattern"

text \<open>\<^verbatim>\<open>get_sum\<close>: the sum is accumulated in an \<^verbatim>\<open>int\<close>.\<close>

definition get_sum :: "nat list \<Rightarrow> int" where
  "get_sum pattern = foldl (\<lambda>s var. wrap32 (s + int var)) 0 pattern"

definition get_min :: "nat list \<Rightarrow> int" where
  "get_min pattern = foldl (\<lambda>res var. min res (int var)) INT_MAX pattern"

definition get_max :: "nat list \<Rightarrow> int" where
  "get_max pattern = foldl (\<lambda>res var. max res (int var)) (- 1) pattern"

text \<open>The inner loop of \<^verbatim>\<open>get_num_new_var_pairs\<close>: \<^verbatim>\<open>it2\<close> runs over the rest of the pattern.\<close>

fun count_new_pairs_with :: "bool list list \<Rightarrow> nat \<Rightarrow> nat list \<Rightarrow> error + int" where
  "count_new_pairs_with used_var_pairs var1 [] = Inr 0"
| "count_new_pairs_with used_var_pairs var1 (var2 # rest) =
     bindE (vec_at used_var_pairs var1) (\<lambda>row.
     bindE (vec_at row var2) (\<lambda>used.
     bindE (count_new_pairs_with used_var_pairs var1 rest) (\<lambda>n.
       Inr ((if \<not> used then 1 else 0) + n))))"

fun get_num_new_var_pairs :: "nat list \<Rightarrow> bool list list \<Rightarrow> error + int" where
  "get_num_new_var_pairs [] used_var_pairs = Inr 0"
| "get_num_new_var_pairs (var1 # rest) used_var_pairs =
     bindE (count_new_pairs_with used_var_pairs var1 rest) (\<lambda>n.
     bindE (get_num_new_var_pairs rest used_var_pairs) (\<lambda>m. Inr (n + m)))"

text \<open>
  \<^verbatim>\<open>TaskInfo\<close> is declared outside the sources; the two members the generator calls are
  the fields of the record.
\<close>

record TaskInfo =
  get_num_operators :: nat
  operator_affects_pattern :: "nat list \<Rightarrow> nat \<Rightarrow> bool"

definition get_num_active_ops :: "nat list \<Rightarrow> TaskInfo \<Rightarrow> int" where
  "get_num_active_ops pattern task_info =
     int (length (filter (operator_affects_pattern task_info pattern)
                         [0 ..< get_num_operators task_info]))"

datatype PatternOrder =
    ORIGINAL | RANDOM | REVERSE
  | PDB_SIZE_UP | PDB_SIZE_DOWN
  | CG_SUM_UP | CG_SUM_DOWN
  | CG_MIN_UP | CG_MIN_DOWN
  | CG_MAX_UP | CG_MAX_DOWN
  | NEW_VAR_PAIRS_UP | NEW_VAR_PAIRS_DOWN
  | ACTIVE_OPS_UP | ACTIVE_OPS_DOWN
  | ALT_TWO
  | ACTIVE_OPS_UP_CG_MIN_DOWN | CG_MIN_DOWN_ACTIVE_OPS_UP

definition compute_score ::
  "nat list \<Rightarrow> PatternOrder \<Rightarrow> TaskInfo \<Rightarrow> int list \<Rightarrow> bool list list \<Rightarrow> error + int" where
  "compute_score pattern order_type task_info domains used_var_pairs =
     (if order_type = PDB_SIZE_UP \<or> order_type = PDB_SIZE_DOWN then
        get_pdb_size domains pattern
      else if order_type = CG_SUM_UP \<or> order_type = CG_SUM_DOWN then
        Inr (get_sum pattern)
      else if order_type = CG_MIN_UP \<or> order_type = CG_MIN_DOWN then
        Inr (get_min pattern)
      else if order_type = CG_MAX_UP \<or> order_type = CG_MAX_DOWN then
        Inr (get_max pattern)
      else if order_type = NEW_VAR_PAIRS_UP \<or> order_type = NEW_VAR_PAIRS_DOWN then
        get_num_new_var_pairs pattern used_var_pairs
      else if order_type = ACTIVE_OPS_UP \<or> order_type = ACTIVE_OPS_DOWN then
        Inr (get_num_active_ops pattern task_info)
      else Inl Abort)"

subsection \<open>Ordering the patterns of a bucket\<close>

text \<open>
  \<^verbatim>\<open>utils::RandomNumberGenerator\<close> and \<^verbatim>\<open>std::sort\<close> are outside the sources and are
  parameters: \<open>rng_shuffle\<close> is \<^verbatim>\<open>rng.shuffle(order)\<close>, \<open>rng_call\<close> is \<^verbatim>\<open>rng(n)\<close>, both
  returning the generator's next state, and \<open>std_sort\<close> takes the comparison
  \<^verbatim>\<open>comp(i, j)\<close> and the vector to sort.
\<close>

record 'rng Library =
  rng_shuffle :: "'rng \<Rightarrow> nat list \<Rightarrow> nat list \<times> 'rng"
  rng_call :: "'rng \<Rightarrow> nat \<Rightarrow> nat \<times> 'rng"
  std_sort :: "(nat \<Rightarrow> nat \<Rightarrow> bool) \<Rightarrow> nat list \<Rightarrow> nat list"

text \<open>The body of the loop that fills \<^verbatim>\<open>pairs\<close> for the two lexicographic orders.\<close>

definition compute_pair ::
  "PatternOrder \<Rightarrow> TaskInfo \<Rightarrow> int list \<Rightarrow> bool list list \<Rightarrow> nat list \<Rightarrow> error + (int \<times> int)" where
  "compute_pair order_type task_info domains used_var_pairs pattern =
     bindE (compute_score pattern ACTIVE_OPS_UP task_info domains used_var_pairs) (\<lambda>active_ops.
     bindE (compute_score pattern CG_MIN_DOWN task_info domains used_var_pairs) (\<lambda>cg_min.
       if order_type = ACTIVE_OPS_UP_CG_MIN_DOWN then Inr (active_ops, - cg_min)
       else if order_type = CG_MIN_DOWN_ACTIVE_OPS_UP then Inr (- cg_min, active_ops)
       else Inl AssertionViolation))"

definition is_down :: "PatternOrder \<Rightarrow> bool" where
  "is_down order_type =
     (order_type = PDB_SIZE_DOWN \<or> order_type = CG_SUM_DOWN \<or> order_type = CG_MIN_DOWN \<or>
      order_type = CG_MAX_DOWN \<or> order_type = NEW_VAR_PAIRS_DOWN \<or>
      order_type = ACTIVE_OPS_DOWN)"

text \<open>
  \<^verbatim>\<open>compute_pattern_order\<close>. The vector \<^verbatim>\<open>order\<close> is updated in place and the generator
  advances; both are returned. The comparisons read \<^verbatim>\<open>scores[i]\<close> and \<^verbatim>\<open>pairs[i]\<close> for
  the entries \<open>i\<close> of the order; an entry that is no pattern id is \<open>OutOfRange\<close>.
\<close>

definition compute_pattern_order ::
  "'rng Library \<Rightarrow> nat list list \<Rightarrow> nat list \<Rightarrow> PatternOrder \<Rightarrow> TaskInfo \<Rightarrow> int list \<Rightarrow>
   bool list list \<Rightarrow> 'rng \<Rightarrow> error + (nat list \<times> 'rng)" where
  "compute_pattern_order lib patterns order order_type task_info domains used_var_pairs rng =
     (if length patterns \<noteq> length order then Inl AssertionViolation
      else if order_type = ORIGINAL then Inr (order, rng)
      else if order_type = REVERSE then Inr (rev order, rng)
      else
        let (shuffled, rng1) = rng_shuffle lib rng order in
        if order_type = RANDOM then Inr (shuffled, rng1)
        else if order_type = ACTIVE_OPS_UP_CG_MIN_DOWN \<or>
                order_type = CG_MIN_DOWN_ACTIVE_OPS_UP then
          bindE (mapE (compute_pair order_type task_info domains used_var_pairs) patterns)
            (\<lambda>pairs.
              if \<exists>i \<in> set shuffled. length pairs \<le> i then Inl OutOfRange
              else Inr (std_sort lib (\<lambda>i j. pairs ! i < pairs ! j) shuffled, rng1))
        else
          bindE (mapE (\<lambda>pattern. compute_score pattern order_type task_info domains
                                    used_var_pairs) patterns)
            (\<lambda>scores.
              if \<exists>i \<in> set shuffled. length scores \<le> i then Inl OutOfRange
              else
                let sorted_order = std_sort lib (\<lambda>i j. scores ! i < scores ! j) shuffled in
                Inr (if is_down order_type then rev sorted_order else sorted_order, rng1)))"

subsection \<open>SequentialPatternGenerator\<close>

record 'rng SequentialPatternGenerator =
  task_info :: TaskInfo
  max_pattern_size :: int
  only_sga_patterns :: bool
  order_type :: PatternOrder
  default_order_type :: PatternOrder
  rng :: 'rng
  domains :: "int list"
  patterns :: "nat list list list"
  orders :: "nat list list"
  cached_pattern_size :: int
  num_generated_patterns :: int

definition get_order_type ::
  "'rng Library \<Rightarrow> 'rng SequentialPatternGenerator \<Rightarrow>
   PatternOrder \<times> 'rng SequentialPatternGenerator" where
  "get_order_type lib g =
     (if order_type g = ALT_TWO then
        let (r, rng1) = rng_call lib (rng g) 2 in
        (if r = 0 then CG_MIN_DOWN else ACTIVE_OPS_UP, g\<lparr>rng := rng1\<rparr>)
      else (order_type g, g))"

text \<open>
  The constructor. \<^verbatim>\<open>default_order_type\<close> has no value before \<^verbatim>\<open>get_order_type\<close> is
  called; here it holds the option until then. \<open>variable_domains\<close> are the domain sizes
  of the variables of the task.
\<close>

definition new_SequentialPatternGenerator ::
  "'rng Library \<Rightarrow> TaskInfo \<Rightarrow> int \<Rightarrow> bool \<Rightarrow> PatternOrder \<Rightarrow> 'rng \<Rightarrow> int list \<Rightarrow>
   error + 'rng SequentialPatternGenerator" where
  "new_SequentialPatternGenerator lib info max_pattern_size_arg only_sga order0 rng0
     variable_domains =
     (if \<not> max_pattern_size_arg \<ge> 0 then Inl AssertionViolation
      else
        let g = \<lparr>task_info = info,
                 max_pattern_size = min max_pattern_size_arg (int (length variable_domains)),
                 only_sga_patterns = only_sga, order_type = order0,
                 default_order_type = order0, rng = rng0, domains = variable_domains,
                 patterns = [], orders = [], cached_pattern_size = 0,
                 num_generated_patterns = 0\<rparr>;
            (default_order, g1) = get_order_type lib g
        in Inr (g1\<lparr>default_order_type := default_order\<rparr>))"

text \<open>
  The loop of \<^verbatim>\<open>get_pattern\<close> that looks for the bucket of \<^verbatim>\<open>pattern_id\<close>: \<open>i\<close> is the
  index of the bucket and \<^verbatim>\<open>start_id\<close> the id of its first pattern. It returns
  \<^verbatim>\<open>bucket_id\<close> and \<^verbatim>\<open>internal_id\<close>, or nothing when the loop ends without a bucket.
\<close>

fun find_bucket :: "nat list list \<Rightarrow> nat \<Rightarrow> nat \<Rightarrow> nat \<Rightarrow> (nat \<times> nat) option" where
  "find_bucket [] pattern_id i start_id = None"
| "find_bucket (order # rest) pattern_id i start_id =
     (if pattern_id \<ge> start_id \<and> pattern_id < start_id + length order
      then Some (i, order ! (pattern_id - start_id))
      else find_bucket rest pattern_id (Suc i) (start_id + length order))"

text \<open>
  \<^verbatim>\<open>get_pattern\<close>. \<^verbatim>\<open>get_patterns\<close>, which runs the systematic pattern generator for one
  pattern size, is outside the sources and is the parameter \<open>systematic\<close>; it returns
  nothing when the timer expires. The result is the pattern (empty when there is none)
  and the generator.
\<close>

function get_pattern ::
  "'rng Library \<Rightarrow> (int \<Rightarrow> nat list list option) \<Rightarrow> 'rng SequentialPatternGenerator \<Rightarrow> nat \<Rightarrow>
   bool list list \<Rightarrow> error + (nat list \<times> 'rng SequentialPatternGenerator)" where
  "get_pattern lib systematic g pattern_id used_pairs =
     (if int pattern_id < num_generated_patterns g then
        (case find_bucket (orders g) pattern_id 0 0 of
           None \<Rightarrow> Inl AssertionViolation
         | Some ids \<Rightarrow>
             bindE (vec_at (patterns g) (fst ids)) (\<lambda>bucket.
             bindE (vec_at bucket (snd ids)) (\<lambda>pattern. Inr (pattern, g))))
      else if cached_pattern_size g < max_pattern_size g then
        (case systematic (cached_pattern_size g + 1) of
           None \<Rightarrow> Inr ([], g)
         | Some current_patterns \<Rightarrow>
             (case compute_pattern_order lib current_patterns
                     [0 ..< length current_patterns] (default_order_type g) (task_info g)
                     (domains g) used_pairs (rng g) of
                Inl e \<Rightarrow> Inl e
              | Inr r \<Rightarrow>
                  get_pattern lib systematic
                    (g\<lparr>cached_pattern_size := cached_pattern_size g + 1,
                       num_generated_patterns :=
                         num_generated_patterns g + int (length current_patterns),
                       patterns := patterns g @ [current_patterns],
                       orders := orders g @ [fst r],
                       rng := snd r\<rparr>)
                    pattern_id used_pairs))
      else Inr ([], g))"
  by pat_completeness auto
termination
  by (relation "measure (\<lambda>(lib, systematic, g, pattern_id, used_pairs).
                  nat (max_pattern_size g - cached_pattern_size g))") auto

text \<open>
  The loop of \<^verbatim>\<open>restart\<close> from index \<open>i\<close>: it reorders \<^verbatim>\<open>orders[i]\<close> with
  \<^verbatim>\<open>patterns[i]\<close> and goes on with the next bucket. \<open>n\<close> counts the buckets left.
\<close>

fun restart_loop ::
  "'rng Library \<Rightarrow> PatternOrder \<Rightarrow> bool list list \<Rightarrow> nat \<Rightarrow> nat \<Rightarrow>
   'rng SequentialPatternGenerator \<Rightarrow> error + 'rng SequentialPatternGenerator" where
  "restart_loop lib current_order_type used_pairs i 0 g = Inr g"
| "restart_loop lib current_order_type used_pairs i (Suc n) g =
     bindE (vec_at (patterns g) i) (\<lambda>bucket.
     bindE (compute_pattern_order lib bucket (orders g ! i) current_order_type (task_info g)
              (domains g) used_pairs (rng g)) (\<lambda>(new_order, rng1).
       restart_loop lib current_order_type used_pairs (Suc i) n
         (g\<lparr>orders := (orders g)[i := new_order], rng := rng1\<rparr>)))"

definition restart ::
  "'rng Library \<Rightarrow> 'rng SequentialPatternGenerator \<Rightarrow> bool list list \<Rightarrow>
   error + 'rng SequentialPatternGenerator" where
  "restart lib g used_pairs =
     (if order_type g = RANDOM \<or> order_type g = NEW_VAR_PAIRS_UP \<or>
         order_type g = NEW_VAR_PAIRS_DOWN \<or> order_type g = ALT_TWO then
        let (current_order_type, g1) = get_order_type lib g in
        restart_loop lib current_order_type used_pairs 0 (length (orders g1)) g1
      else Inr g)"

subsection \<open>The driver loop of select\_systematic\_patterns\<close>

definition contains_positive_finite_value :: "int list \<Rightarrow> bool" where
  "contains_positive_finite_value vals = (\<exists>v \<in> set vals. v > 0 \<and> v \<noteq> INT_MAX)"

text \<open>The two nested loops of \<^verbatim>\<open>only_free_operators_affect_pdb\<close>.\<close>

fun only_free_operators :: "int list \<Rightarrow> nat list \<Rightarrow> error + bool" where
  "only_free_operators op_costs [] = Inr True"
| "only_free_operators op_costs (op # ops) =
     bindE (vec_at op_costs op) (\<lambda>c.
       if c > 0 \<and> c \<noteq> INT_MAX then Inr False else only_free_operators op_costs ops)"

fun only_free_operators_affect_pdb ::
  "nat list \<Rightarrow> int list \<Rightarrow> nat list list \<Rightarrow> error + bool" where
  "only_free_operators_affect_pdb [] op_costs relevant = Inr True"
| "only_free_operators_affect_pdb (var # pattern) op_costs relevant =
     bindE (vec_at relevant var) (\<lambda>ops.
     bindE (only_free_operators op_costs ops) (\<lambda>free.
       if \<not> free then Inr False
       else only_free_operators_affect_pdb pattern op_costs relevant))"

text \<open>\<^verbatim>\<open>used_var_pairs[var1][var2] = true\<close> for one cell, then for all pairs of a pattern.\<close>

definition mark_var_pair :: "bool list list \<Rightarrow> nat \<times> nat \<Rightarrow> error + bool list list" where
  "mark_var_pair used_pairs p =
     bindE (vec_at used_pairs (fst p)) (\<lambda>row.
       if snd p < length row then Inr (used_pairs[fst p := row[snd p := True]])
       else Inl OutOfRange)"

fun mark_var_pairs :: "bool list list \<Rightarrow> (nat \<times> nat) list \<Rightarrow> error + bool list list" where
  "mark_var_pairs used_pairs [] = Inr used_pairs"
| "mark_var_pairs used_pairs (p # ps) =
     bindE (mark_var_pair used_pairs p) (\<lambda>used_pairs1. mark_var_pairs used_pairs1 ps)"

text \<open>\<^verbatim>\<open>DeadEndTreatment\<close>; \<open>ALL_DEAD_ENDS\<close> is the source's \<^verbatim>\<open>ALL\<close>, a reserved word here.\<close>

datatype DeadEndTreatment = IGNORE | ALL_DEAD_ENDS | NEW | NEW_FOR_CURRENT_ORDER

text \<open>
  The options of \<^verbatim>\<open>PatternCollectionGeneratorFilteredSystematic\<close> the loop reads, and
  the member \<^verbatim>\<open>relevant_operators_per_variable\<close>.
\<close>

record Options =
  max_pdb_size :: int
  max_collection_size :: int
  max_patterns :: int
  saturate :: bool
  ignore_useless_patterns :: bool
  dead_end_treatment :: DeadEndTreatment
  relevant_operators_per_variable :: "nat list list"

text \<open>
  What the loop changes: the arguments passed by reference, the local \<^verbatim>\<open>costs\<close> and the
  counter \<^verbatim>\<open>num_pattern_evaluations\<close>. The priority queue and the dead-end collection
  are only handed to the pattern evaluator and are one component \<open>evaluator_data\<close>.
\<close>

record ('proj, 'aux) Selection =
  projections :: "'proj list"
  pattern_set :: "nat list set"
  used_var_pairs :: "bool list list"
  collection_size :: int
  costs :: "int list"
  evaluator_data :: 'aux
  num_pattern_evaluations :: int

text \<open>
  \<^verbatim>\<open>PatternEvaluator\<close>, \<^verbatim>\<open>cost_saturation::Projection\<close> and \<^verbatim>\<open>reduce_costs\<close> are outside
  the sources and are parameters.
\<close>

record ('proj, 'aux) Collaborators =
  is_useful :: "nat list \<Rightarrow> 'aux \<Rightarrow> DeadEndTreatment \<Rightarrow> int list \<Rightarrow> bool \<times> 'aux"
  make_projection :: "nat list \<Rightarrow> 'proj"
  compute_goal_distances :: "'proj \<Rightarrow> int list \<Rightarrow> int list"
  compute_saturated_costs :: "'proj \<Rightarrow> int list \<Rightarrow> nat \<Rightarrow> int list"
  reduce_costs :: "int list \<Rightarrow> int list \<Rightarrow> int list"

datatype 'a LoopStep = Continue 'a | Return bool 'a

text \<open>
  One iteration of the \<^verbatim>\<open>while (true)\<close> loop, from the test of the timer on. Its inputs
  are the pattern that \<^verbatim>\<open>get_pattern\<close> returned for this \<^verbatim>\<open>pattern_id\<close> and whether
  the timer has expired; \<open>Continue\<close> goes on with the next \<^verbatim>\<open>pattern_id\<close>, \<open>Return b\<close> leaves
  the function with \<open>b\<close>. The assertions on \<^verbatim>\<open>select_pattern\<close> are those of the
  \<^verbatim>\<open>#ifndef NDEBUG\<close> block.
\<close>

definition select_systematic_patterns_step ::
  "Options \<Rightarrow> ('proj, 'aux) Collaborators \<Rightarrow> int list \<Rightarrow> ('proj, 'aux) Selection \<Rightarrow>
   nat list \<Rightarrow> bool \<Rightarrow> error + ('proj, 'aux) Selection LoopStep" where
  "select_systematic_patterns_step opts ext variable_domains st pattern expired =
     (if expired then Inr (Return False st)
      else if pattern = [] then Inr (Return False st)
      else if pattern \<in> pattern_set st then Inr (Continue st)
      else
        bindE (get_pdb_size variable_domains pattern) (\<lambda>pdb_size.
        if pdb_size = - 1 \<or> pdb_size > max_pdb_size opts then Inr (Continue st)
        else if int (length (projections st)) = max_patterns opts then Inr (Return True st)
        else if max_collection_size opts \<noteq> INT_MAX \<and>
                pdb_size > max_collection_size opts - collection_size st then
          Inr (Return True st)
        else
          bindE (if ignore_useless_patterns opts
                 then only_free_operators_affect_pdb pattern (costs st)
                        (relevant_operators_per_variable opts)
                 else Inr False) (\<lambda>useless.
          if useless then Inr (Continue st)
          else
            let (select_pattern, aux1) =
                  (if saturate opts
                   then is_useful ext pattern (evaluator_data st) (dead_end_treatment opts)
                          (costs st)
                   else (True, evaluator_data st));
                goal_distances = compute_goal_distances ext (make_projection ext pattern)
                                   (costs st)
            in
            if saturate opts \<and> dead_end_treatment opts = IGNORE \<and>
               select_pattern \<noteq> contains_positive_finite_value goal_distances then
              Inl AssertionViolation
            else if saturate opts \<and> dead_end_treatment opts = ALL_DEAD_ENDS \<and>
               select_pattern \<noteq> (\<exists>d \<in> set goal_distances. d > 0) then
              Inl AssertionViolation
            else
              let st1 = st\<lparr>evaluator_data := aux1,
                           num_pattern_evaluations := num_pattern_evaluations st + 1\<rparr> in
              if select_pattern then
                let projection = make_projection ext pattern;
                    costs1 =
                      (if saturate opts
                       then reduce_costs ext (costs st)
                              (compute_saturated_costs ext projection
                                 (compute_goal_distances ext projection (costs st))
                                 (length (costs st)))
                       else costs st)
                in
                bindE (mark_var_pairs (used_var_pairs st)
                         (concat (map (\<lambda>var1. map (\<lambda>var2. (var1, var2)) pattern) pattern)))
                  (\<lambda>used_pairs1.
                    Inr (Continue (st1\<lparr>costs := costs1,
                                       projections := projections st @ [projection],
                                       pattern_set := insert pattern (pattern_set st),
                                       used_var_pairs := used_pairs1,
                                       collection_size := collection_size st + pdb_size\<rparr>)))
              else Inr (Continue st1))))"

section \<open>cost\_saturation/saturated\_cost\_partitioning\_online\_heuristic.cc\<close>

subsection \<open>The heuristic object and its collaborators\<close>

definition IS_NOVEL :: int where
  "IS_NOVEL = - 3"

definition IS_NOT_NOVEL :: int where
  "IS_NOT_NOVEL = - 4"

text \<open>
  Modelled from the spec: the constant \<^verbatim>\<open>DEAD_END\<close> (heuristic.h) is not among the sources.
  The spec gives the result of \<^verbatim>\<open>compute_heuristic\<close> as "NonNegativeInt | DeadEnd", so
  \<open>DEAD_END\<close> is an integer that is no heuristic value: a negative one.
\<close>

definition DEAD_END :: int where
  "DEAD_END = - 1"

text \<open>
  Modelled from the spec: the enumeration \<^verbatim>\<open>Saturator\<close> is declared outside the sources;
  the spec lists the values \<^verbatim>\<open>ONE_SHOT\<close> and \<^verbatim>\<open>PERIMSTAR\<close> of the option.
\<close>

datatype Saturator = ONE_SHOT | PERIMSTAR

text \<open>
  The calls to collaborators that the properties below speak of. The heuristic object
  carries a log of them (\<open>calls\<close>), which is no member of the C++ class.
\<close>

datatype Call = EvaluateStoredCPHs | ComputeOrder | PerimSCP | FullSCP | CPFunction

text \<open>
  The members of \<^verbatim>\<open>SaturatedCostPartitioningOnlineHeuristic\<close>. A state is the vector of
  its values; \<open>heuristic_cache\<close> gives the field \<^verbatim>\<open>h\<close> of a state's cache entry; a null
  abstraction function is \<open>None\<close>. The types of abstractions, abstraction functions and
  cost-partitioning heuristics are parameters.
\<close>

record ('abs, 'fn, 'cph) Online =
  saturator :: Saturator
  abstractions :: "'abs list"
  abstraction_functions :: "'fn option list"
  cp_heuristics :: "'cph list"
  interval :: int
  max_time :: real
  max_size_kb :: int
  use_evaluated_state_as_sample :: bool
  costs :: "int list"
  improve_heuristic :: bool
  size_kb :: int
  num_evaluated_states :: int
  num_scps_computed :: int
  fact_id_offsets :: "nat list"
  seen_facts :: "bool list"
  seen_fact_pairs :: "bool list list"
  heuristic_cache :: "nat list \<Rightarrow> int"
  calls :: "Call list"

text \<open>
  The classes and functions the heuristic uses that are outside the sources, as
  parameters: the effects of an operator as (variable, value) pairs, the conversion of a
  global state, \<^verbatim>\<open>get_abstract_state_ids\<close> on abstractions and on abstraction functions,
  the unsolvability heuristic, the members of \<^verbatim>\<open>CostPartitioningHeuristic\<close>, the order
  generator and the three functions that compute a cost partitioning.
  \<open>compute_perim_scp\<close> also returns the remaining costs it leaves in its reference
  argument.
\<close>

record ('abs, 'fn, 'cph) Environment =
  get_effects :: "nat \<Rightarrow> (nat \<times> nat) list"
  convert_global_state :: "nat list \<Rightarrow> nat list"
  get_abstract_state_ids :: "'abs list \<Rightarrow> nat list \<Rightarrow> nat list"
  get_abstract_state_ids_fn :: "'fn option list \<Rightarrow> nat list \<Rightarrow> nat list"
  is_unsolvable :: "nat list \<Rightarrow> bool"
  unsolvability_useful :: "nat list"
  cph_useful :: "'cph \<Rightarrow> nat list"
  cph_compute_heuristic :: "'cph \<Rightarrow> nat list \<Rightarrow> int"
  cph_add :: "'cph \<Rightarrow> 'cph \<Rightarrow> 'cph"
  estimate_size_in_kb :: "'cph \<Rightarrow> int"
  extract_abstraction_function :: "'abs \<Rightarrow> 'fn"
  compute_order_for_state :: "nat list \<Rightarrow> bool \<Rightarrow> nat list"
  cp_function :: "'abs list \<Rightarrow> nat list \<Rightarrow> int list \<Rightarrow> nat list \<Rightarrow> 'cph"
  compute_perim_scp :: "'abs list \<Rightarrow> nat list \<Rightarrow> int list \<Rightarrow> nat list \<Rightarrow> 'cph \<times> int list"
  compute_saturated_cost_partitioning ::
    "'abs list \<Rightarrow> nat list \<Rightarrow> int list \<Rightarrow> nat list \<Rightarrow> 'cph"

subsection \<open>extract\_useful\_abstraction\_functions\<close>

text \<open>
  Modelled from the spec: \<^verbatim>\<open>mark_useful_abstractions\<close> of the unsolvability heuristic and
  of a cost-partitioning heuristic are outside the sources. The spec says of it that it
  "sets bits[a] = true" for every abstraction the object flags; the flagged abstraction
  ids are the parameters \<open>unsolvability_useful\<close> and \<open>cph_useful\<close>.
\<close>

fun mark_useful_abstractions :: "nat list \<Rightarrow> bool list \<Rightarrow> error + bool list" where
  "mark_useful_abstractions [] useful = Inr useful"
| "mark_useful_abstractions (a # ids) useful =
     (if a < length useful then mark_useful_abstractions ids (useful[a := True])
      else Inl OutOfRange)"

fun mark_all_useful ::
  "('cph \<Rightarrow> nat list) \<Rightarrow> 'cph list \<Rightarrow> bool list \<Rightarrow> error + bool list" where
  "mark_all_useful flagged [] useful = Inr useful"
| "mark_all_useful flagged (cp # cps) useful =
     bindE (mark_useful_abstractions (flagged cp) useful) (\<lambda>useful1.
       mark_all_useful flagged cps useful1)"

definition extract_useful_abstraction_functions ::
  "('abs, 'fn, 'cph) Environment \<Rightarrow> 'cph list \<Rightarrow> 'abs list \<Rightarrow> 'fn option list \<Rightarrow>
   error + 'fn option list" where
  "extract_useful_abstraction_functions ext cps abss fns =
     bindE (mark_useful_abstractions (unsolvability_useful ext)
              (replicate (length abss) False)) (\<lambda>useful0.
     bindE (mark_all_useful (cph_useful ext) cps useful0) (\<lambda>useful.
       let fns1 = fns @ map (\<lambda>i. if useful ! i
                                   then Some (extract_abstraction_function ext (abss ! i))
                                   else None) [0 ..< length abss]
       in if length fns1 = length abss then Inr fns1 else Inl AssertionViolation))"

subsection \<open>Novelty\<close>

text \<open>
  The part of the constructor that sets up the novelty structures from the domain sizes
  of the variables; the vectors are empty before.
\<close>

fun compute_fact_id_offsets :: "nat \<Rightarrow> nat list \<Rightarrow> nat list" where
  "compute_fact_id_offsets num_facts [] = []"
| "compute_fact_id_offsets num_facts (d # ds) =
     num_facts # compute_fact_id_offsets (num_facts + d) ds"

definition init_novelty ::
  "nat list \<Rightarrow> ('abs, 'fn, 'cph) Online \<Rightarrow> ('abs, 'fn, 'cph) Online" where
  "init_novelty domain_sizes self =
     (let num_facts = sum_list domain_sizes;
          self1 = self\<lparr>fact_id_offsets := compute_fact_id_offsets 0 domain_sizes\<rparr>
      in if interval self = - 1 then
           self1\<lparr>seen_facts := replicate num_facts False\<rparr>
         else if interval self = - 2 then
           self1\<lparr>seen_fact_pairs := replicate num_facts (replicate num_facts False)\<rparr>
         else self1)"

definition get_fact_id :: "('abs, 'fn, 'cph) Online \<Rightarrow> nat \<Rightarrow> nat \<Rightarrow> error + nat" where
  "get_fact_id self var val = bindE (vec_at (fact_id_offsets self) var) (\<lambda>off. Inr (off + val))"

definition visit_fact_pair ::
  "('abs, 'fn, 'cph) Online \<Rightarrow> nat \<Rightarrow> nat \<Rightarrow> error + (bool \<times> ('abs, 'fn, 'cph) Online)" where
  "visit_fact_pair self fact_id1 fact_id2 =
     (let (id1, id2) = (if fact_id1 > fact_id2 then (fact_id2, fact_id1)
                        else (fact_id1, fact_id2))
      in if \<not> id1 < id2 then Inl AssertionViolation
         else
           bindE (vec_at (seen_fact_pairs self) id1) (\<lambda>row.
           bindE (vec_at row id2) (\<lambda>seen.
             Inr (\<not> seen,
                  self\<lparr>seen_fact_pairs := (seen_fact_pairs self)[id1 := row[id2 := True]]\<rparr>))))"

text \<open>The loop of \<^verbatim>\<open>is_novel\<close> for \<^verbatim>\<open>interval == -1\<close>, over the effects of the operator.\<close>

fun is_novel_facts ::
  "('abs, 'fn, 'cph) Online \<Rightarrow> bool \<Rightarrow> (nat \<times> nat) list \<Rightarrow>
   error + (bool \<times> ('abs, 'fn, 'cph) Online)" where
  "is_novel_facts self novel [] = Inr (novel, self)"
| "is_novel_facts self novel (effect # effects) =
     bindE (get_fact_id self (fst effect) (snd effect)) (\<lambda>fact_id.
     bindE (vec_at (seen_facts self) fact_id) (\<lambda>seen.
       if \<not> seen then
         is_novel_facts (self\<lparr>seen_facts := (seen_facts self)[fact_id := True]\<rparr>) True effects
       else is_novel_facts self novel effects))"

text \<open>
  The loops of \<^verbatim>\<open>is_novel\<close> for \<^verbatim>\<open>interval == -2\<close>: the inner one over \<^verbatim>\<open>var2\<close> for the
  effect on \<^verbatim>\<open>fact1.var\<close> with id \<^verbatim>\<open>fact_id1\<close>, the outer one over the effects.
\<close>

fun is_novel_pairs_inner ::
  "('abs, 'fn, 'cph) Online \<Rightarrow> nat list \<Rightarrow> nat \<Rightarrow> nat \<Rightarrow> bool \<Rightarrow> nat list \<Rightarrow>
   error + (bool \<times> ('abs, 'fn, 'cph) Online)" where
  "is_novel_pairs_inner self state fact1_var fact_id1 novel [] = Inr (novel, self)"
| "is_novel_pairs_inner self state fact1_var fact_id1 novel (var2 # vars) =
     (if fact1_var = var2 then
        is_novel_pairs_inner self state fact1_var fact_id1 novel vars
      else
        bindE (vec_at state var2) (\<lambda>value2.
        bindE (get_fact_id self var2 value2) (\<lambda>fact_id2.
        bindE (visit_fact_pair self fact_id1 fact_id2) (\<lambda>r.
          is_novel_pairs_inner (snd r) state fact1_var fact_id1
            (if fst r then True else novel) vars))))"

fun is_novel_pairs ::
  "('abs, 'fn, 'cph) Online \<Rightarrow> nat list \<Rightarrow> bool \<Rightarrow> (nat \<times> nat) list \<Rightarrow>
   error + (bool \<times> ('abs, 'fn, 'cph) Online)" where
  "is_novel_pairs self state novel [] = Inr (novel, self)"
| "is_novel_pairs self state novel (fact1 # effects) =
     bindE (get_fact_id self (fst fact1) (snd fact1)) (\<lambda>fact_id1.
     bindE (is_novel_pairs_inner self state (fst fact1) fact_id1 novel
              [0 ..< length (fact_id_offsets self)]) (\<lambda>r.
       is_novel_pairs (snd r) state (fst r) effects))"

definition is_novel ::
  "('abs, 'fn, 'cph) Environment \<Rightarrow> ('abs, 'fn, 'cph) Online \<Rightarrow> nat \<Rightarrow> nat list \<Rightarrow>
   error + (bool \<times> ('abs, 'fn, 'cph) Online)" where
  "is_novel ext self op_id state =
     (if interval self = - 1 then is_novel_facts self False (get_effects ext op_id)
      else if interval self = - 2 then is_novel_pairs self state False (get_effects ext op_id)
      else Inl Abort)"

text \<open>The loops of \<^verbatim>\<open>notify_initial_state\<close>.\<close>

fun seed_facts ::
  "('abs, 'fn, 'cph) Online \<Rightarrow> nat list \<Rightarrow> nat list \<Rightarrow> error + ('abs, 'fn, 'cph) Online" where
  "seed_facts self initial_state [] = Inr self"
| "seed_facts self initial_state (var # vars) =
     bindE (vec_at initial_state var) (\<lambda>val.
     bindE (get_fact_id self var val) (\<lambda>fact_id.
       if fact_id < length (seen_facts self) then
         seed_facts (self\<lparr>seen_facts := (seen_facts self)[fact_id := True]\<rparr>) initial_state vars
       else Inl OutOfRange))"

fun seed_pairs_inner ::
  "('abs, 'fn, 'cph) Online \<Rightarrow> nat list \<Rightarrow> nat \<Rightarrow> nat list \<Rightarrow>
   error + ('abs, 'fn, 'cph) Online" where
  "seed_pairs_inner self initial_state fact_id1 [] = Inr self"
| "seed_pairs_inner self initial_state fact_id1 (var2 # vars) =
     bindE (vec_at initial_state var2) (\<lambda>value2.
     bindE (get_fact_id self var2 value2) (\<lambda>fact_id2.
     bindE (visit_fact_pair self fact_id1 fact_id2) (\<lambda>r.
       seed_pairs_inner (snd r) initial_state fact_id1 vars)))"

fun seed_pairs ::
  "('abs, 'fn, 'cph) Online \<Rightarrow> nat list \<Rightarrow> nat \<Rightarrow> nat list \<Rightarrow>
   error + ('abs, 'fn, 'cph) Online" where
  "seed_pairs self initial_state num_vars [] = Inr self"
| "seed_pairs self initial_state num_vars (var1 # vars) =
     bindE (vec_at initial_state var1) (\<lambda>value1.
     bindE (get_fact_id self var1 value1) (\<lambda>fact_id1.
     bindE (seed_pairs_inner self initial_state fact_id1 [var1 + 1 ..< num_vars]) (\<lambda>self1.
       seed_pairs self1 initial_state num_vars vars)))"

definition notify_initial_state ::
  "('abs, 'fn, 'cph) Online \<Rightarrow> nat list \<Rightarrow> error + ('abs, 'fn, 'cph) Online" where
  "notify_initial_state self initial_state =
     (if interval self \<ge> 1 then Inr self
      else
        let self1 = self\<lparr>heuristic_cache := (heuristic_cache self)(initial_state := IS_NOVEL)\<rparr>;
            num_vars = length (fact_id_offsets self1)
        in if interval self1 = - 1 then seed_facts self1 initial_state [0 ..< num_vars]
           else if interval self1 = - 2 then
             seed_pairs self1 initial_state num_vars [0 ..< num_vars]
           else Inl Abort)"

subsection \<open>compute\_heuristic\<close>

definition should_compute_scp ::
  "('abs, 'fn, 'cph) Online \<Rightarrow> nat list \<Rightarrow> error + bool" where
  "should_compute_scp self global_state =
     (if interval self > 0 then Inr (num_evaluated_states self mod interval self = 0)
      else if interval self = - 1 \<or> interval self = - 2 then
        Inr (heuristic_cache self global_state = IS_NOVEL)
      else Inl Abort)"

text \<open>
  Modelled from the spec: \<^verbatim>\<open>compute_max_h_with_statistics\<close> (cost\_saturation/utils.h) is
  not among the sources. The spec says "Compute max\_h = max over CPH in S of CPH(a)", a
  heuristic value being a non-negative integer; the maximum starts from 0, the value for
  an empty collection. The statistics it also keeps are not modelled.
\<close>

definition compute_max_h_with_statistics ::
  "('abs, 'fn, 'cph) Environment \<Rightarrow> 'cph list \<Rightarrow> nat list \<Rightarrow> int" where
  "compute_max_h_with_statistics ext cps abstract_state_ids =
     foldl (\<lambda>max_h cp. max max_h (cph_compute_heuristic ext cp abstract_state_ids)) 0 cps"

text \<open>
  The end of the improvement phase: the body of the first \<^verbatim>\<open>if\<close> after \<^verbatim>\<open>max_h\<close> is
  computed.
\<close>

definition stop_improvement ::
  "('abs, 'fn, 'cph) Environment \<Rightarrow> ('abs, 'fn, 'cph) Online \<Rightarrow>
   error + ('abs, 'fn, 'cph) Online" where
  "stop_improvement ext self =
     bindE (extract_useful_abstraction_functions ext (cp_heuristics self) (abstractions self)
              (abstraction_functions self)) (\<lambda>fns.
       Inr (self\<lparr>improve_heuristic := False,
                 fact_id_offsets := [],
                 seen_facts := [],
                 seen_fact_pairs := [],
                 abstraction_functions := fns,
                 abstractions := []\<rparr>))"

text \<open>
  The computation of a cost partitioning for the evaluated state: from the declaration of
  \<^verbatim>\<open>cost_partitioning\<close> to the second saturation of \<^verbatim>\<open>PERIMSTAR\<close>. It returns the cost
  partitioning and its value \<^verbatim>\<open>h\<close>.
\<close>

definition compute_cost_partitioning ::
  "('abs, 'fn, 'cph) Environment \<Rightarrow> ('abs, 'fn, 'cph) Online \<Rightarrow> nat list \<Rightarrow> nat list \<Rightarrow> int \<Rightarrow>
   'cph \<times> int \<times> ('abs, 'fn, 'cph) Online" where
  "compute_cost_partitioning ext self order abstract_state_ids max_h =
     (let (cost_partitioning, remaining_costs, self1) =
            (if saturator self = PERIMSTAR then
               let (cp, remaining) = compute_perim_scp ext (abstractions self) order (costs self)
                                       abstract_state_ids
               in (cp, remaining, self\<lparr>calls := calls self @ [PerimSCP]\<rparr>)
             else
               (cp_function ext (abstractions self) order (costs self) abstract_state_ids,
                [], self\<lparr>calls := calls self @ [CPFunction]\<rparr>));
          self2 = self1\<lparr>num_scps_computed := num_scps_computed self1 + 1\<rparr>;
          h = cph_compute_heuristic ext cost_partitioning abstract_state_ids
      in if saturator self = PERIMSTAR \<and> h > max_h then
           (cph_add ext cost_partitioning
              (compute_saturated_cost_partitioning ext (abstractions self) order remaining_costs
                 abstract_state_ids),
            h, self2\<lparr>calls := calls self2 @ [FullSCP]\<rparr>)
         else (cost_partitioning, h, self2))"

text \<open>
  The body of \<^verbatim>\<open>if (improve_heuristic && should_compute_scp(global_state))\<close>; it returns
  the new \<^verbatim>\<open>max_h\<close>.
\<close>

definition improve_with_scp ::
  "('abs, 'fn, 'cph) Environment \<Rightarrow> ('abs, 'fn, 'cph) Online \<Rightarrow> nat list \<Rightarrow> int \<Rightarrow>
   int \<times> ('abs, 'fn, 'cph) Online" where
  "improve_with_scp ext self abstract_state_ids max_h =
     (let order = compute_order_for_state ext abstract_state_ids (num_evaluated_states self = 0);
          self1 = self\<lparr>calls := calls self @ [ComputeOrder]\<rparr>;
          (cost_partitioning, h, self2) =
             compute_cost_partitioning ext self1 order abstract_state_ids max_h;
          is_diverse = (use_evaluated_state_as_sample self2 \<and> h > max_h);
          self3 = (if is_diverse then
                     self2\<lparr>size_kb := size_kb self2 + estimate_size_in_kb ext cost_partitioning,
                            cp_heuristics := cp_heuristics self2 @ [cost_partitioning]\<rparr>
                   else self2)
      in (max max_h h, self3))"

text \<open>
  The first part of \<^verbatim>\<open>compute_heuristic\<close>: the abstract state ids of the state, from
  the abstractions during the improvement phase and from the abstraction functions after
  it, with the assertion of each branch.
\<close>

definition abstract_state_ids_for ::
  "('abs, 'fn, 'cph) Environment \<Rightarrow> ('abs, 'fn, 'cph) Online \<Rightarrow> nat list \<Rightarrow> error + nat list" where
  "abstract_state_ids_for ext self global_state =
     (let state = convert_global_state ext global_state in
      if improve_heuristic self then
        (if abstractions self \<noteq> [] \<and> abstraction_functions self = []
         then Inr (get_abstract_state_ids ext (abstractions self) state)
         else Inl AssertionViolation)
      else
        (if abstractions self = [] \<and> abstraction_functions self \<noteq> []
         then Inr (get_abstract_state_ids_fn ext (abstraction_functions self) state)
         else Inl AssertionViolation))"

text \<open>
  \<^verbatim>\<open>compute_heuristic\<close>. \<open>elapsed\<close> is what the timer of the improvement phase reads
  when the function asks it.
\<close>

definition compute_heuristic ::
  "('abs, 'fn, 'cph) Environment \<Rightarrow> ('abs, 'fn, 'cph) Online \<Rightarrow> nat list \<Rightarrow> real \<Rightarrow>
   error + (int \<times> ('abs, 'fn, 'cph) Online)" where
  "compute_heuristic ext self global_state elapsed =
     bindE (abstract_state_ids_for ext self global_state) (\<lambda>abstract_state_ids.
       if is_unsolvable ext abstract_state_ids then Inr (DEAD_END, self)
       else
         let max_h = compute_max_h_with_statistics ext (cp_heuristics self) abstract_state_ids;
             self1 = self\<lparr>calls := calls self @ [EvaluateStoredCPHs]\<rparr>
         in
         bindE (if improve_heuristic self1 \<and>
                   (elapsed \<ge> max_time self1 \<or> size_kb self1 \<ge> max_size_kb self1)
                then stop_improvement ext self1 else Inr self1) (\<lambda>self2.
         bindE (if improve_heuristic self2 then should_compute_scp self2 global_state
                else Inr False) (\<lambda>compute_scp.
           let (max_h1, self3) =
                 (if improve_heuristic self2 \<and> compute_scp
                  then improve_with_scp ext self2 abstract_state_ids max_h
                  else (max_h, self2))
           in Inr (max_h1,
                   self3\<lparr>num_evaluated_states := num_evaluated_states self3 + 1\<rparr>))))"

text \<open>
  A sequence of calls of \<^verbatim>\<open>compute_heuristic\<close>, each with its state and the reading of
  the timer; the results are returned in order.
\<close>

fun compute_heuristics ::
  "('abs, 'fn, 'cph) Environment \<Rightarrow> ('abs, 'fn, 'cph) Online \<Rightarrow> (nat list \<times> real) list \<Rightarrow>
   error + (int list \<times> ('abs, 'fn, 'cph) Online)" where
  "compute_heuristics ext self [] = Inr ([], self)"
| "compute_heuristics ext self (q # queries) =
     bindE (compute_heuristic ext self (fst q) (snd q)) (\<lambda>r.
     bindE (compute_heuristics ext (snd r) queries) (\<lambda>rs.
       Inr (fst r # fst rs, snd rs)))"

section \<open>Well-formed inputs and an example instance\<close>

text \<open>
  A state gives every variable a value of its domain; a fact (an effect of an operator) is
  a variable with a value of its domain. \<open>pair_novelty_ready\<close> is what the constructor
  establishes for \<^verbatim>\<open>interval == -2\<close> and what \<^verbatim>\<open>visit_fact_pair\<close> keeps: the offsets are
  those of the domain sizes and the matrix of seen pairs has a row and a column per fact.
\<close>

definition valid_state :: "nat list \<Rightarrow> nat list \<Rightarrow> bool" where
  "valid_state domain_sizes state \<longleftrightarrow>
     length state = length domain_sizes \<and>
     (\<forall>var < length domain_sizes. state ! var < domain_sizes ! var)"

definition valid_facts :: "nat list \<Rightarrow> (nat \<times> nat) list \<Rightarrow> bool" where
  "valid_facts domain_sizes facts \<longleftrightarrow>
     (\<forall>f \<in> set facts. fst f < length domain_sizes \<and> snd f < domain_sizes ! fst f)"

definition pair_novelty_ready :: "nat list \<Rightarrow> ('abs, 'fn, 'cph) Online \<Rightarrow> bool" where
  "pair_novelty_ready domain_sizes self \<longleftrightarrow>
     fact_id_offsets self = compute_fact_id_offsets 0 domain_sizes \<and>
     length (seen_fact_pairs self) = sum_list domain_sizes \<and>
     (\<forall>row \<in> set (seen_fact_pairs self). length row = sum_list domain_sizes)"

text \<open>
  A small instance for concrete evaluations: two binary variables, one operator that sets
  variable 0 to 1, one abstraction per variable (its abstract state id is the value of the
  variable), and cost-partitioning heuristics that are lookup tables over the values of
  variable 0 and flag abstraction 0 as useful; the state \<open>[1, 1]\<close> is unsolvable.
\<close>

definition example_env :: "(nat, nat, int list) Environment" where
  "example_env =
     \<lparr>get_effects = (\<lambda>op_id. [(0, 1)]),
      convert_global_state = (\<lambda>s. s),
      get_abstract_state_ids = (\<lambda>abss s. map (\<lambda>a. s ! a) abss),
      get_abstract_state_ids_fn = (\<lambda>fns s. map (\<lambda>f. case f of None \<Rightarrow> 0 | Some a \<Rightarrow> s ! a) fns),
      is_unsolvable = (\<lambda>ids. ids = [1, 1]),
      unsolvability_useful = [],
      cph_useful = (\<lambda>cp. [0]),
      cph_compute_heuristic = (\<lambda>cp ids. cp ! (ids ! 0)),
      cph_add = (\<lambda>cp1 cp2. map2 (+) cp1 cp2),
      estimate_size_in_kb = (\<lambda>cp. 1),
      extract_abstraction_function = (\<lambda>a. a),
      compute_order_for_state = (\<lambda>ids first. [0, 1]),
      cp_function = (\<lambda>abss order cs ids. [3, 0]),
      compute_perim_scp = (\<lambda>abss order cs ids. ([2, 0], cs)),
      compute_saturated_cost_partitioning = (\<lambda>abss order cs ids. [1, 0])\<rparr>"

definition example_online :: "(nat, nat, int list) Online" where
  "example_online =
     \<lparr>saturator = PERIMSTAR, abstractions = [0, 1], abstraction_functions = [],
      cp_heuristics = [[1, 0]], interval = 1, max_time = 10, max_size_kb = 100,
      use_evaluated_state_as_sample = True, costs = [1], improve_heuristic = True,
      size_kb = 1, num_evaluated_states = 0, num_scps_computed = 0,
      fact_id_offsets = [0, 2], seen_facts = [], seen_fact_pairs = [],
      heuristic_cache = (\<lambda>s. 0), calls = []\<rparr>"

definition example_seen_pairs :: "bool list list" where
  "example_seen_pairs =
     [[False, False, False, False],
      [False, False, True, False],
      [False, False, False, False],
      [False, False, False, False]]"

text \<open>
  What holds of a generator between the calls of its members: every materialized bucket
  has its order, the order is a permutation of the pattern ids of the bucket, and the
  patterns consist of variables of the task. The matrix of used variable pairs has a row
  and a column per variable.
\<close>

definition generator_ok :: "'rng SequentialPatternGenerator \<Rightarrow> bool" where
  "generator_ok g \<longleftrightarrow>
     length (patterns g) = length (orders g) \<and>
     (\<forall>k < length (orders g).
        mset (orders g ! k) = mset [0 ..< length (patterns g ! k)] \<and>
        (\<forall>pattern \<in> set (patterns g ! k). \<forall>var \<in> set pattern. var < length (domains g)))"

definition used_pairs_ok :: "nat \<Rightarrow> bool list list \<Rightarrow> bool" where
  "used_pairs_ok num_vars used_pairs \<longleftrightarrow>
     length used_pairs = num_vars \<and> (\<forall>row \<in> set used_pairs. length row = num_vars)"

subsection \<open>Sorting, shuffling and instances for the pattern generator\<close>

text \<open>
  What the C++ standard promises of \<^verbatim>\<open>std::sort\<close> for a comparison that is a strict weak
  order: the result is a permutation of the input in which no element is smaller than
  one before it. Nothing is promised about the order of equivalent elements.
\<close>

definition strict_weak_order :: "(nat \<Rightarrow> nat \<Rightarrow> bool) \<Rightarrow> bool" where
  "strict_weak_order cmp \<longleftrightarrow>
     (\<forall>a. \<not> cmp a a) \<and>
     (\<forall>a b c. cmp a b \<and> cmp b c \<longrightarrow> cmp a c) \<and>
     (\<forall>a b c. \<not> cmp a b \<and> \<not> cmp b c \<longrightarrow> \<not> cmp a c)"

definition sorts :: "((nat \<Rightarrow> nat \<Rightarrow> bool) \<Rightarrow> nat list \<Rightarrow> nat list) \<Rightarrow> bool" where
  "sorts srt \<longleftrightarrow>
     (\<forall>cmp xs. strict_weak_order cmp \<longrightarrow>
        mset (srt cmp xs) = mset xs \<and> sorted_wrt (\<lambda>a b. \<not> cmp b a) (srt cmp xs))"

text \<open>A shuffle returns a permutation of the vector.\<close>

definition permutes :: "('rng \<Rightarrow> nat list \<Rightarrow> nat list \<times> 'rng) \<Rightarrow> bool" where
  "permutes shuffle \<longleftrightarrow> (\<forall>r xs. mset (fst (shuffle r xs)) = mset xs)"

text \<open>
  Instances for concrete evaluations: insertion sort as \<^verbatim>\<open>std::sort\<close>, which keeps
  equivalent elements in their order; a generator whose state is a counter, whose shuffle
  rotates the vector by the counter (not at all in state 0, by one place in state 1); a
  task with two binary variables and one operator that affects variable 0; and a pattern
  generator that has materialized the bucket of the patterns of size one.
\<close>

fun insert_by :: "(nat \<Rightarrow> nat \<Rightarrow> bool) \<Rightarrow> nat \<Rightarrow> nat list \<Rightarrow> nat list" where
  "insert_by cmp x [] = [x]"
| "insert_by cmp x (y # ys) = (if cmp y x then y # insert_by cmp x ys else x # y # ys)"

fun insertion_sort :: "(nat \<Rightarrow> nat \<Rightarrow> bool) \<Rightarrow> nat list \<Rightarrow> nat list" where
  "insertion_sort cmp [] = []"
| "insertion_sort cmp (x # xs) = insert_by cmp x (insertion_sort cmp xs)"

definition example_lib :: "nat Library" where
  "example_lib =
     \<lparr>rng_shuffle = (\<lambda>r xs. (rotate r xs, Suc r)),
      rng_call = (\<lambda>r n. (r mod n, Suc r)),
      std_sort = insertion_sort\<rparr>"

definition example_task_info :: TaskInfo where
  "example_task_info =
     \<lparr>get_num_operators = 1, operator_affects_pattern = (\<lambda>pattern op_id. 0 \<in> set pattern)\<rparr>"

definition example_generator :: "nat SequentialPatternGenerator" where
  "example_generator =
     \<lparr>task_info = example_task_info, max_pattern_size = 2, only_sga_patterns = False,
      order_type = PDB_SIZE_UP, default_order_type = PDB_SIZE_UP, rng = 0,
      domains = [2, 2], patterns = [[[0], [1]]], orders = [[0, 1]],
      cached_pattern_size = 1, num_generated_patterns = 2\<rparr>"

section \<open>Properties\<close>

subsection \<open>The size of a pattern database\<close>

lemma wrap32_id: "- 2147483648 \<le> x \<Longrightarrow> x \<le> INT_MAX \<Longrightarrow> wrap32 x = x"
  by (simp add: wrap32_def INT_MAX_def)

lemma prod_list_domains_pos:
  "\<forall>v \<in> set pattern. v < length ds \<and> 1 \<le> ds ! v \<Longrightarrow> (1::int) \<le> prod_list (map ((!) ds) pattern)"
proof (induction pattern)
  case Nil
  then show ?case by simp
next
  case (Cons v pattern)
  then have "1 \<le> ds ! v" "1 \<le> prod_list (map ((!) ds) pattern)" by simp_all
  then have "1 * 1 \<le> ds ! v * prod_list (map ((!) ds) pattern)"
    by (intro mult_mono) simp_all
  then show ?case by simp
qed

lemma get_pdb_size_from_exact:
  "\<forall>v \<in> set pattern. v < length ds \<and> 1 \<le> ds ! v \<Longrightarrow> 1 \<le> sz \<Longrightarrow> sz \<le> INT_MAX \<Longrightarrow>
   get_pdb_size_from ds sz pattern =
     Inr (if sz * prod_list (map ((!) ds) pattern) \<le> INT_MAX
          then sz * prod_list (map ((!) ds) pattern) else - 1)"
proof (induction pattern arbitrary: sz)
  case Nil
  then show ?case by simp
next
  case (Cons v pattern)
  let ?d = "ds ! v" and ?rest = "prod_list (map ((!) ds) pattern)"
  from Cons.prems have d: "v < length ds" "1 \<le> ?d" by simp_all
  from Cons.prems have rest: "1 \<le> ?rest" by (intro prod_list_domains_pos) simp
  have pos: "1 \<le> sz * ?d" using \<open>1 \<le> sz\<close> d(2) mult_mono[of 1 sz 1 ?d] by simp
  show ?case
  proof (cases "sz * ?d \<le> INT_MAX")
    case True
    then have w: "wrap32 (sz * ?d) = sz * ?d" using pos by (intro wrap32_id) simp_all
    have "get_pdb_size_from ds (sz * ?d) pattern =
      Inr (if sz * ?d * ?rest \<le> INT_MAX then sz * ?d * ?rest else - 1)"
      using Cons.prems pos True by (intro Cons.IH) simp_all
    then show ?thesis using True d w
      by (simp add: bindE_def vec_at_def is_product_within_limit_def mult.assoc)
  next
    case False
    have "sz * ?d * 1 \<le> sz * ?d * ?rest" using pos rest by (intro mult_left_mono) simp_all
    then have "\<not> sz * (?d * ?rest) \<le> INT_MAX" using False by (simp add: mult.assoc)
    then show ?thesis using False d
      by (simp add: bindE_def vec_at_def is_product_within_limit_def)
  qed
qed

lemma step_skips_large:
  "pattern \<noteq> [] \<Longrightarrow> pattern \<notin> pattern_set st \<Longrightarrow> get_pdb_size ds pattern = Inr r \<Longrightarrow>
   r = - 1 \<or> r > max_pdb_size opts \<Longrightarrow>
   select_systematic_patterns_step opts ext ds st pattern False = Inr (Continue st)"
  by (simp add: select_systematic_patterns_step_def bindE_def)

text \<open>
  C8. For a pattern whose variables are variables of the task, each with a domain of at
  least one value, \<^verbatim>\<open>get_pdb_size\<close> returns the exact product of the domain sizes when
  the product is at most \<open>INT_MAX\<close>, and \<open>-1\<close> exactly when the product is larger. In the
  driver loop a candidate (a non-empty pattern that is not yet in the pattern set) whose
  size is \<open>-1\<close> or exceeds \<^verbatim>\<open>max_pdb_size\<close> is skipped: the iteration continues with
  every component of the selection unchanged, among them the projections, the pattern
  set and the remaining costs.
\<close>

theorem get_pdb_size_exact_or_skipped:
  assumes "\<forall>v \<in> set pattern. v < length domain_sizes \<and> 1 \<le> domain_sizes ! v"
  shows "get_pdb_size domain_sizes pattern =
           Inr (if prod_list (map ((!) domain_sizes) pattern) \<le> INT_MAX
                then prod_list (map ((!) domain_sizes) pattern) else - 1) \<and>
         (get_pdb_size domain_sizes pattern = Inr (- 1) \<longleftrightarrow>
            INT_MAX < prod_list (map ((!) domain_sizes) pattern)) \<and>
         (\<forall>r opts ext st.
            pattern \<noteq> [] \<and> pattern \<notin> pattern_set st \<and>
            get_pdb_size domain_sizes pattern = Inr r \<and> (r = - 1 \<or> r > max_pdb_size opts) \<longrightarrow>
            select_systematic_patterns_step opts ext domain_sizes st pattern False =
              Inr (Continue st))"
proof -
  let ?P = "prod_list (map ((!) domain_sizes) pattern)"
  have exact: "get_pdb_size domain_sizes pattern = Inr (if ?P \<le> INT_MAX then ?P else - 1)"
    using get_pdb_size_from_exact[OF assms, of 1] by (simp add: get_pdb_size_def INT_MAX_def)
  have pos: "1 \<le> ?P" using assms by (rule prod_list_domains_pos)
  have iff: "get_pdb_size domain_sizes pattern = Inr (- 1) \<longleftrightarrow> INT_MAX < ?P"
    using exact pos by auto
  show ?thesis using exact iff step_skips_large by blast
qed

theorem get_pdb_size_exact_or_skipped_witness:
  "get_pdb_size [65536, 65536, 3] [0, 1] = Inr (- 1) \<and>
   select_systematic_patterns_step
     \<lparr>max_pdb_size = 1000, max_collection_size = 5000, max_patterns = 10, saturate = True,
      ignore_useless_patterns = False, dead_end_treatment = NEW,
      relevant_operators_per_variable = []\<rparr>
     \<lparr>is_useful = (\<lambda>p a t c. (True, a)), make_projection = (\<lambda>p. p),
      compute_goal_distances = (\<lambda>p c. []), compute_saturated_costs = (\<lambda>p d n. []),
      reduce_costs = (\<lambda>c s. c)\<rparr>
     [65536, 65536, 3]
     \<lparr>projections = [[2]], pattern_set = {[2]}, used_var_pairs = [], collection_size = 3,
      costs = [1, 1], evaluator_data = (), num_pattern_evaluations = 1\<rparr>
     [0, 1] False =
   Inr (Continue
     \<lparr>projections = [[2]], pattern_set = {[2]}, used_var_pairs = [], collection_size = 3,
      costs = [1, 1], evaluator_data = (), num_pattern_evaluations = 1\<rparr>)"
proof -
  have wf: "\<forall>v \<in> set [0, 1::nat]. v < length [65536, 65536, 3::int] \<and> 1 \<le> [65536, 65536, 3::int] ! v"
    by simp
  have ov: "INT_MAX < prod_list (map ((!) [65536, 65536, 3::int]) [0, 1])"
    by (simp add: INT_MAX_def)
  note t = get_pdb_size_exact_or_skipped[OF wf]
  from t ov have r: "get_pdb_size [65536, 65536, 3] [0, 1] = Inr (- 1)" by blast
  from t have "\<And>r opts (ext :: (nat list, unit) Collaborators) (st :: (nat list, unit) Selection).
      [0, 1] \<noteq> [] \<and> [0, 1] \<notin> pattern_set st \<and>
      get_pdb_size [65536, 65536, 3] [0, 1] = Inr r \<and> (r = - 1 \<or> r > max_pdb_size opts) \<Longrightarrow>
      select_systematic_patterns_step opts ext [65536, 65536, 3] st [0, 1] False =
        Inr (Continue st)"
    by blast
  from this[of _ "- 1"] r show ?thesis by simp
qed

subsection \<open>Novelty\<close>

lemma bindE_Inr: "bindE (Inr x) f = f x"
  by (simp add: bindE_def)

lemma bindE_Inr_iff:
  "bindE m f = Inr y \<longleftrightarrow> (\<exists>x. m = Inr x \<and> f x = Inr y)"
  by (cases m) (simp_all add: bindE_def)

lemma vec_at_Inr_iff: "vec_at xs i = Inr x \<longleftrightarrow> i < length xs \<and> x = xs ! i"
  by (auto simp: vec_at_def)

lemma is_novel_facts_result:
  "is_novel_facts self novel effects = Inr (b, self') \<Longrightarrow>
   (novel \<longrightarrow> b) \<and> (\<not> b \<longrightarrow> self' = self)"
proof (induction effects arbitrary: self novel)
  case Nil
  then show ?case by simp
next
  case (Cons effect effects)
  from Cons.prems obtain fact_id where
    rec: "(if \<not> seen_facts self ! fact_id
           then is_novel_facts (self\<lparr>seen_facts := (seen_facts self)[fact_id := True]\<rparr>) True effects
           else is_novel_facts self novel effects) = Inr (b, self')"
    by (auto simp: bindE_Inr_iff vec_at_Inr_iff)
  show ?case
  proof (cases "seen_facts self ! fact_id")
    case True
    with rec Cons.IH[of self novel] show ?thesis by simp
  next
    case False
    with rec Cons.IH[of "self\<lparr>seen_facts := (seen_facts self)[fact_id := True]\<rparr>" True]
    show ?thesis by simp
  qed
qed

lemma visit_fact_pair_seen:
  assumes "visit_fact_pair self fact_id1 fact_id2 = Inr (False, self')"
  shows "self' = self"
proof -
  define id1 where "id1 = (if fact_id1 > fact_id2 then fact_id2 else fact_id1)"
  define id2 where "id2 = (if fact_id1 > fact_id2 then fact_id1 else fact_id2)"
  from assms have r: "id1 < length (seen_fact_pairs self)"
      "id2 < length (seen_fact_pairs self ! id1)"
      "seen_fact_pairs self ! id1 ! id2"
      "self' = self\<lparr>seen_fact_pairs :=
          (seen_fact_pairs self)[id1 := (seen_fact_pairs self ! id1)[id2 := True]]\<rparr>"
    by (auto simp: visit_fact_pair_def id1_def id2_def bindE_Inr_iff vec_at_Inr_iff
        split: if_splits)
  from r(3) have "(seen_fact_pairs self ! id1)[id2 := True] = seen_fact_pairs self ! id1"
    by (metis list_update_id)
  with r(4) show ?thesis by simp
qed

lemma is_novel_pairs_inner_result:
  "is_novel_pairs_inner self state var1 fact_id1 novel vars = Inr (b, self') \<Longrightarrow>
   (novel \<longrightarrow> b) \<and> (\<not> b \<longrightarrow> self' = self)"
proof (induction vars arbitrary: self novel)
  case Nil
  then show ?case by simp
next
  case (Cons var2 vars)
  show ?case
  proof (cases "var1 = var2")
    case True
    with Cons show ?thesis by simp
  next
    case False
    with Cons.prems obtain fact_id2 r where
      v: "visit_fact_pair self fact_id1 fact_id2 = Inr r" and
      rec: "is_novel_pairs_inner (snd r) state var1 fact_id1 (if fst r then True else novel) vars
            = Inr (b, self')"
      by (auto simp: bindE_Inr_iff)
    from Cons.IH[OF rec] have ih: "((if fst r then True else novel) \<longrightarrow> b)"
      "\<not> b \<longrightarrow> self' = snd r" by simp_all
    have "\<not> b \<Longrightarrow> snd r = self"
    proof -
      assume "\<not> b"
      with ih(1) have "\<not> fst r" by auto
      with v have "visit_fact_pair self fact_id1 fact_id2 = Inr (False, snd r)"
        by (cases r) simp
      then show "snd r = self" by (rule visit_fact_pair_seen)
    qed
    with ih show ?thesis by auto
  qed
qed

lemma is_novel_pairs_result:
  "is_novel_pairs self state novel effects = Inr (b, self') \<Longrightarrow>
   (novel \<longrightarrow> b) \<and> (\<not> b \<longrightarrow> self' = self)"
proof (induction effects arbitrary: self novel)
  case Nil
  then show ?case by simp
next
  case (Cons fact1 effects)
  from Cons.prems obtain fact_id1 r where
    inner: "is_novel_pairs_inner self state (fst fact1) fact_id1 novel
              [0 ..< length (fact_id_offsets self)] = Inr r" and
    rec: "is_novel_pairs (snd r) state (fst r) effects = Inr (b, self')"
    by (auto simp: bindE_Inr_iff)
  from inner have "is_novel_pairs_inner self state (fst fact1) fact_id1 novel
              [0 ..< length (fact_id_offsets self)] = Inr (fst r, snd r)" by simp
  then have i: "(novel \<longrightarrow> fst r) \<and> (\<not> fst r \<longrightarrow> snd r = self)"
    by (rule is_novel_pairs_inner_result)
  from Cons.IH[OF rec] i show ?case by auto
qed

text \<open>
  C6. Whenever \<^verbatim>\<open>is_novel\<close> returns false, for \<^verbatim>\<open>interval == -1\<close> and for
  \<^verbatim>\<open>interval == -2\<close>, for every operator and state, the vector of seen facts and the
  matrix of seen fact pairs after the call are those before the call; indeed the whole
  object is unchanged.
\<close>

theorem is_novel_false_keeps_seen:
  assumes "is_novel ext self op_id state = Inr (False, self')"
  shows "seen_facts self' = seen_facts self \<and> seen_fact_pairs self' = seen_fact_pairs self \<and>
         self' = self"
proof -
  have "self' = self"
  proof (cases "interval self = - 1")
    case True
    with assms is_novel_facts_result[of self False "get_effects ext op_id" False self']
    show ?thesis by (simp add: is_novel_def)
  next
    case False
    with assms is_novel_pairs_result[of self state False "get_effects ext op_id" False self']
    show ?thesis by (simp add: is_novel_def split: if_splits)
  qed
  then show ?thesis by simp
qed

lemma upt_2: "[0 ..< 2] = [0, Suc 0]"
  by (simp add: upt_rec)

theorem is_novel_false_keeps_seen_witness:
  "\<exists>self'. is_novel example_env
              (example_online\<lparr>interval := - 2, seen_fact_pairs := example_seen_pairs\<rparr>) 0 [1, 0]
            = Inr (False, self') \<and>
          seen_facts self' = [] \<and> seen_fact_pairs self' = example_seen_pairs"
proof -
  let ?self = "example_online\<lparr>interval := - 2, seen_fact_pairs := example_seen_pairs\<rparr>"
  have h: "is_novel example_env ?self 0 [1, 0] = Inr (False, ?self)"
    by (simp add: is_novel_def example_env_def example_online_def example_seen_pairs_def
        get_fact_id_def visit_fact_pair_def bindE_def vec_at_def upt_2)
  from is_novel_false_keeps_seen[OF h] h show ?thesis
    by (simp add: example_online_def)
qed

subsection \<open>The calls of visit\_fact\_pair\<close>

lemma length_compute_fact_id_offsets [simp]:
  "length (compute_fact_id_offsets n ds) = length ds"
  by (induction ds arbitrary: n) simp_all

lemma nth_compute_fact_id_offsets:
  "v < length ds \<Longrightarrow> compute_fact_id_offsets n ds ! v = n + sum_list (take v ds)"
proof (induction ds arbitrary: n v)
  case Nil
  then show ?case by simp
next
  case (Cons d ds)
  then show ?case by (cases v) simp_all
qed

lemma sum_list_take_mono:
  "i \<le> j \<Longrightarrow> sum_list (take i ds) \<le> sum_list (take j (ds :: nat list))"
proof -
  assume "i \<le> j"
  then have "take j ds = take i ds @ take (j - i) (drop i ds)"
    by (metis le_add_diff_inverse take_add)
  then show ?thesis by simp
qed

lemma sum_list_take_Suc:
  "v < length ds \<Longrightarrow> sum_list (take (Suc v) ds) = sum_list (take v ds) + (ds ! v :: nat)"
  by (simp add: take_Suc_conv_app_nth)

lemma sum_list_take_le: "sum_list (take i ds) \<le> sum_list (ds :: nat list)"
  using sum_list_take_mono[of i "length ds" ds] by (cases "i \<le> length ds") simp_all

lemma get_fact_id_ready:
  "pair_novelty_ready ds self \<Longrightarrow> var < length ds \<Longrightarrow>
   get_fact_id self var val = Inr (sum_list (take var ds) + val)"
  by (simp add: pair_novelty_ready_def get_fact_id_def bindE_def vec_at_def
      nth_compute_fact_id_offsets)

lemma fact_id_in_range:
  "var < length ds \<Longrightarrow> val < ds ! var \<Longrightarrow> sum_list (take var ds) + val < sum_list (ds :: nat list)"
proof -
  assume a: "var < length ds" "val < ds ! var"
  then have "sum_list (take var ds) + val < sum_list (take (Suc var) ds)"
    by (simp add: sum_list_take_Suc)
  also have "\<dots> \<le> sum_list ds" by (rule sum_list_take_le)
  finally show ?thesis .
qed

lemma fact_id_less:
  assumes "var1 < var2" "var2 < length ds" "val1 < ds ! var1"
  shows "sum_list (take var1 ds) + val1 < sum_list (take var2 (ds :: nat list)) + val2"
proof -
  from assms have "sum_list (take var1 ds) + val1 < sum_list (take (Suc var1) ds)"
    by (simp add: sum_list_take_Suc)
  also from assms have "\<dots> \<le> sum_list (take var2 ds)"
    by (intro sum_list_take_mono) simp
  finally show ?thesis by simp
qed

lemma fact_id_distinct:
  assumes "var1 \<noteq> var2" "var1 < length ds" "var2 < length ds"
    "val1 < ds ! var1" "val2 < ds ! var2"
  shows "sum_list (take var1 ds) + val1 \<noteq> sum_list (take var2 (ds :: nat list)) + val2"
proof (cases "var1 < var2")
  case True
  with assms fact_id_less[of var1 var2 ds val1 val2] show ?thesis by simp
next
  case False
  with assms have "var2 < var1" by simp
  with assms fact_id_less[of var2 var1 ds val2 val1] show ?thesis by simp
qed

lemma visit_fact_pair_sym:
  "visit_fact_pair self a b = visit_fact_pair self b a"
  by (cases a b rule: linorder_cases) (simp_all add: visit_fact_pair_def)

lemma visit_fact_pair_less:
  assumes "id1 < id2" "id1 < length (seen_fact_pairs self)"
    "id2 < length (seen_fact_pairs self ! id1)"
  shows "visit_fact_pair self id1 id2 =
     Inr (\<not> seen_fact_pairs self ! id1 ! id2,
          self\<lparr>seen_fact_pairs :=
                 (seen_fact_pairs self)[id1 := (seen_fact_pairs self ! id1)[id2 := True]]\<rparr>)"
  using assms by (simp add: visit_fact_pair_def bindE_def vec_at_def)

lemma visit_fact_pair_less_ready:
  assumes "pair_novelty_ready ds self" "id1 < id2" "id2 < sum_list ds"
  shows "\<exists>novel self'. visit_fact_pair self id1 id2 = Inr (novel, self') \<and>
           pair_novelty_ready ds self'"
proof -
  let ?m = "seen_fact_pairs self"
  from assms have len: "id1 < length ?m" "id2 < length (?m ! id1)"
    by (simp_all add: pair_novelty_ready_def)
  let ?self' = "self\<lparr>seen_fact_pairs := ?m[id1 := (?m ! id1)[id2 := True]]\<rparr>"
  have rows: "\<forall>row \<in> set (?m[id1 := (?m ! id1)[id2 := True]]). length row = sum_list ds"
  proof
    fix row assume "row \<in> set (?m[id1 := (?m ! id1)[id2 := True]])"
    then have "row \<in> insert ((?m ! id1)[id2 := True]) (set ?m)"
      by (rule set_update_subset_insert[THEN subsetD])
    then have "row = (?m ! id1)[id2 := True] \<or> row \<in> set ?m" by simp
    then show "length row = sum_list ds"
    proof
      assume "row = (?m ! id1)[id2 := True]"
      then have "length row = length (?m ! id1)" by simp
      also have "?m ! id1 \<in> set ?m" using len(1) by simp
      then have "length (?m ! id1) = sum_list ds"
        using assms(1) by (simp add: pair_novelty_ready_def)
      finally show ?thesis .
    next
      assume "row \<in> set ?m"
      then show ?thesis using assms(1) by (simp add: pair_novelty_ready_def)
    qed
  qed
  have "pair_novelty_ready ds ?self'"
    using assms(1) rows by (simp add: pair_novelty_ready_def)
  with visit_fact_pair_less[OF assms(2) len] show ?thesis by blast
qed

lemma visit_fact_pair_ready:
  assumes "pair_novelty_ready ds self" "a \<noteq> b" "a < sum_list ds" "b < sum_list ds"
  shows "\<exists>novel self'. visit_fact_pair self a b = Inr (novel, self') \<and>
           pair_novelty_ready ds self'"
proof (cases "a < b")
  case True
  with assms show ?thesis by (intro visit_fact_pair_less_ready) simp_all
next
  case False
  with assms have "b < a" by simp
  with assms have "\<exists>novel self'. visit_fact_pair self b a = Inr (novel, self') \<and>
           pair_novelty_ready ds self'" by (intro visit_fact_pair_less_ready) simp_all
  then show ?thesis by (simp add: visit_fact_pair_sym[of self a b])
qed

lemma is_novel_pairs_inner_ready:
  assumes "valid_state ds state" "var1 < length ds" "val1 < ds ! var1"
  shows "pair_novelty_ready ds self \<Longrightarrow> \<forall>v \<in> set vars. v < length ds \<Longrightarrow>
     \<exists>b self'. is_novel_pairs_inner self state var1 (sum_list (take var1 ds) + val1) novel vars
        = Inr (b, self') \<and> pair_novelty_ready ds self'"
proof (induction vars arbitrary: self novel)
  case Nil
  then show ?case by simp
next
  case (Cons var2 vars)
  from Cons.prems have v2: "var2 < length ds" and rest: "\<forall>v \<in> set vars. v < length ds"
    by simp_all
  show ?case
  proof (cases "var1 = var2")
    case True
    with Cons.IH[OF Cons.prems(1) rest] show ?thesis by simp
  next
    case False
    let ?id1 = "sum_list (take var1 ds) + val1"
    let ?id2 = "sum_list (take var2 ds) + state ! var2"
    from assms(1) v2 have s2: "var2 < length state" "state ! var2 < ds ! var2"
      by (simp_all add: valid_state_def)
    have ne: "?id1 \<noteq> ?id2"
      using False assms(2) v2 assms(3) s2(2) by (rule fact_id_distinct)
    have r1: "?id1 < sum_list ds" using assms(2,3) by (rule fact_id_in_range)
    have r2: "?id2 < sum_list ds" using v2 s2(2) by (rule fact_id_in_range)
    from visit_fact_pair_ready[OF Cons.prems(1) ne r1 r2] obtain b1 self1 where
      v: "visit_fact_pair self ?id1 ?id2 = Inr (b1, self1)" and
      rdy: "pair_novelty_ready ds self1" by blast
    from Cons.IH[OF rdy rest, of "if b1 then True else novel"] obtain b self' where
      "is_novel_pairs_inner self1 state var1 ?id1 (if b1 then True else novel) vars
         = Inr (b, self')" "pair_novelty_ready ds self'" by blast
    then show ?thesis
      using False s2(1) v get_fact_id_ready[OF Cons.prems(1) v2]
      by (simp add: bindE_def vec_at_def)
  qed
qed

lemma ready_num_vars:
  "pair_novelty_ready ds self \<Longrightarrow> length (fact_id_offsets self) = length ds"
  by (simp add: pair_novelty_ready_def)

lemma is_novel_pairs_ready:
  assumes "valid_state ds state"
  shows "pair_novelty_ready ds self \<Longrightarrow> valid_facts ds effects \<Longrightarrow>
     \<exists>b self'. is_novel_pairs self state novel effects = Inr (b, self') \<and>
        pair_novelty_ready ds self'"
proof (induction effects arbitrary: self novel)
  case Nil
  then show ?case by simp
next
  case (Cons fact1 effects)
  from Cons.prems(2) have f: "fst fact1 < length ds" "snd fact1 < ds ! fst fact1"
    and rest: "valid_facts ds effects" by (simp_all add: valid_facts_def)
  have vars: "\<forall>v \<in> set [0 ..< length (fact_id_offsets self)]. v < length ds"
    using ready_num_vars[OF Cons.prems(1)] by simp
  from is_novel_pairs_inner_ready[OF assms f Cons.prems(1) vars, of novel]
  obtain b1 self1 where
    inner: "is_novel_pairs_inner self state (fst fact1)
              (sum_list (take (fst fact1) ds) + snd fact1) novel
              [0 ..< length (fact_id_offsets self)] = Inr (b1, self1)" and
    rdy: "pair_novelty_ready ds self1" by blast
  from Cons.IH[OF rdy rest, of b1] obtain b self' where
    "is_novel_pairs self1 state b1 effects = Inr (b, self')" "pair_novelty_ready ds self'"
    by blast
  then show ?case
    using inner get_fact_id_ready[OF Cons.prems(1) f(1)] by (simp add: bindE_def)
qed

lemma seed_pairs_inner_ready:
  assumes "valid_state ds state" "var1 < length ds" "val1 < ds ! var1"
  shows "pair_novelty_ready ds self \<Longrightarrow> \<forall>v \<in> set vars. var1 < v \<and> v < length ds \<Longrightarrow>
     \<exists>self'. seed_pairs_inner self state (sum_list (take var1 ds) + val1) vars = Inr self' \<and>
        pair_novelty_ready ds self'"
proof (induction vars arbitrary: self)
  case Nil
  then show ?case by simp
next
  case (Cons var2 vars)
  from Cons.prems have v2: "var2 < length ds" "var1 < var2"
    and rest: "\<forall>v \<in> set vars. var1 < v \<and> v < length ds" by simp_all
  let ?id1 = "sum_list (take var1 ds) + val1"
  let ?id2 = "sum_list (take var2 ds) + state ! var2"
  from assms(1) v2 have s2: "var2 < length state" "state ! var2 < ds ! var2"
    by (simp_all add: valid_state_def)
  have lt: "?id1 < ?id2" using v2(2,1) assms(3) by (rule fact_id_less)
  have r2: "?id2 < sum_list ds" using v2(1) s2(2) by (rule fact_id_in_range)
  from visit_fact_pair_less_ready[OF Cons.prems(1) lt r2] obtain b1 self1 where
    v: "visit_fact_pair self ?id1 ?id2 = Inr (b1, self1)" and
    rdy: "pair_novelty_ready ds self1" by blast
  from Cons.IH[OF rdy rest] obtain self' where
    "seed_pairs_inner self1 state ?id1 vars = Inr self'" "pair_novelty_ready ds self'"
    by blast
  then show ?case
    using s2(1) v get_fact_id_ready[OF Cons.prems(1) v2(1)]
    by (simp add: bindE_def vec_at_def)
qed

lemma seed_pairs_ready:
  assumes "valid_state ds state"
  shows "pair_novelty_ready ds self \<Longrightarrow> \<forall>v \<in> set vars. v < length ds \<Longrightarrow>
     \<exists>self'. seed_pairs self state (length ds) vars = Inr self' \<and> pair_novelty_ready ds self'"
proof (induction vars arbitrary: self)
  case Nil
  then show ?case by simp
next
  case (Cons var1 vars)
  from Cons.prems have v1: "var1 < length ds" and rest: "\<forall>v \<in> set vars. v < length ds"
    by simp_all
  from assms v1 have s1: "var1 < length state" "state ! var1 < ds ! var1"
    by (simp_all add: valid_state_def)
  have vars2: "\<forall>v \<in> set [var1 + 1 ..< length ds]. var1 < v \<and> v < length ds" by simp
  from seed_pairs_inner_ready[OF assms v1 s1(2) Cons.prems(1) vars2] obtain self1 where
    inner: "seed_pairs_inner self state (sum_list (take var1 ds) + state ! var1)
              [var1 + 1 ..< length ds] = Inr self1" and
    rdy: "pair_novelty_ready ds self1" by blast
  from Cons.IH[OF rdy rest] obtain self' where
    "seed_pairs self1 state (length ds) vars = Inr self'" "pair_novelty_ready ds self'"
    by blast
  then show ?case
    using s1(1) inner get_fact_id_ready[OF Cons.prems(1) v1]
    by (simp add: bindE_def vec_at_def)
qed

lemma init_novelty_ready:
  "interval self = - 2 \<Longrightarrow> pair_novelty_ready ds (init_novelty ds self)"
  by (simp add: init_novelty_def pair_novelty_ready_def Let_def)

text \<open>
  C10. With the novelty structures as the constructor builds them for \<^verbatim>\<open>interval == -2\<close>,
  a valid state and valid effects: the fact ids of two facts of distinct variables are
  distinct and smaller than the number of facts, and \<^verbatim>\<open>visit_fact_pair\<close> on them returns
  normally, that is, the assertion \<^verbatim>\<open>fact_id1 < fact_id2\<close> holds after the swap and both
  indices are inside the matrix; \<^verbatim>\<open>visit_fact_pair\<close> gives the same result for both orders
  of its arguments; and \<^verbatim>\<open>is_novel\<close> and \<^verbatim>\<open>notify_initial_state\<close> return normally, so
  that every call of \<^verbatim>\<open>visit_fact_pair\<close> they make passes the assertion and stays inside
  the matrix.
\<close>

theorem visit_fact_pair_calls_well_formed:
  assumes "pair_novelty_ready ds self" "valid_state ds state"
    "valid_facts ds (get_effects ext op_id)" "interval self = - 2"
  shows "(\<forall>var1 val1 var2 val2.
            var1 \<noteq> var2 \<and> var1 < length ds \<and> var2 < length ds \<and>
            val1 < ds ! var1 \<and> val2 < ds ! var2 \<longrightarrow>
            (\<exists>id1 id2 r. get_fact_id self var1 val1 = Inr id1 \<and>
               get_fact_id self var2 val2 = Inr id2 \<and> id1 \<noteq> id2 \<and>
               id1 < sum_list ds \<and> id2 < sum_list ds \<and>
               visit_fact_pair self id1 id2 = Inr r)) \<and>
         (\<forall>id1 id2. visit_fact_pair self id1 id2 = visit_fact_pair self id2 id1) \<and>
         (\<exists>r. is_novel ext self op_id state = Inr r) \<and>
         (\<exists>self'. notify_initial_state self state = Inr self')"
proof -
  have ids: "\<exists>id1 id2 r. get_fact_id self var1 val1 = Inr id1 \<and>
               get_fact_id self var2 val2 = Inr id2 \<and> id1 \<noteq> id2 \<and>
               id1 < sum_list ds \<and> id2 < sum_list ds \<and>
               visit_fact_pair self id1 id2 = Inr r"
    if "var1 \<noteq> var2" "var1 < length ds" "var2 < length ds" "val1 < ds ! var1"
      "val2 < ds ! var2" for var1 val1 var2 val2
  proof -
    let ?id1 = "sum_list (take var1 ds) + val1" and ?id2 = "sum_list (take var2 ds) + val2"
    have ne: "?id1 \<noteq> ?id2" using that by (rule fact_id_distinct)
    have r1: "?id1 < sum_list ds" using that(2,4) by (rule fact_id_in_range)
    have r2: "?id2 < sum_list ds" using that(3,5) by (rule fact_id_in_range)
    from visit_fact_pair_ready[OF assms(1) ne r1 r2] obtain r where
      "visit_fact_pair self ?id1 ?id2 = Inr r" by blast
    with ne r1 r2 get_fact_id_ready[OF assms(1) that(2)] get_fact_id_ready[OF assms(1) that(3)]
    show ?thesis by blast
  qed
  have novel: "\<exists>r. is_novel ext self op_id state = Inr r"
    using is_novel_pairs_ready[OF assms(2,1,3), of False] assms(4)
    by (auto simp: is_novel_def)
  let ?self1 = "self\<lparr>heuristic_cache := (heuristic_cache self)(state := IS_NOVEL)\<rparr>"
  have rdy: "pair_novelty_ready ds ?self1"
    using assms(1) by (simp add: pair_novelty_ready_def)
  have "\<exists>self'. seed_pairs ?self1 state (length ds) [0 ..< length ds] = Inr self' \<and>
          pair_novelty_ready ds self'"
    using assms(2) rdy by (rule seed_pairs_ready) simp
  then have seed: "\<exists>self'. notify_initial_state self state = Inr self'"
    using assms(4) ready_num_vars[OF assms(1)]
    by (auto simp: notify_initial_state_def Let_def)
  from ids novel seed visit_fact_pair_sym show ?thesis by blast
qed

theorem visit_fact_pair_calls_well_formed_witness:
  "(\<exists>r. visit_fact_pair (init_novelty [2, 2] (example_online\<lparr>interval := - 2\<rparr>)) 1 2 = Inr r) \<and>
   (\<exists>r. is_novel example_env (init_novelty [2, 2] (example_online\<lparr>interval := - 2\<rparr>)) 0 [1, 0]
         = Inr r) \<and>
   (\<exists>self'. notify_initial_state (init_novelty [2, 2] (example_online\<lparr>interval := - 2\<rparr>)) [1, 0]
         = Inr self')"
proof -
  let ?self = "init_novelty [2, 2] (example_online\<lparr>interval := - 2\<rparr>)"
  have i: "interval ?self = - 2" by (simp add: init_novelty_def example_online_def Let_def)
  have r: "pair_novelty_ready [2, 2] ?self"
    by (simp add: pair_novelty_ready_def init_novelty_def example_online_def Let_def)
  have s: "valid_state [2, 2] [1, 0]" by (simp add: valid_state_def less_Suc_eq numeral_2_eq_2)
  have f: "valid_facts [2, 2] (get_effects example_env 0)"
    by (simp add: valid_facts_def example_env_def)
  note t = visit_fact_pair_calls_well_formed[OF r s f i]
  from t have "\<exists>id1 id2 r. get_fact_id ?self 0 1 = Inr id1 \<and>
               get_fact_id ?self 1 0 = Inr id2 \<and> id1 \<noteq> id2 \<and>
               id1 < sum_list [2, 2] \<and> id2 < sum_list [2, 2] \<and>
               visit_fact_pair ?self id1 id2 = Inr r"
    by simp
  moreover have "get_fact_id ?self 0 1 = Inr 1" "get_fact_id ?self 1 0 = Inr 2"
    by (simp_all add: get_fact_id_def init_novelty_def example_online_def Let_def bindE_def
        vec_at_def)
  ultimately have "\<exists>r. visit_fact_pair ?self 1 2 = Inr r" by auto
  with t show ?thesis by blast
qed

subsection \<open>The order of the patterns of a bucket\<close>

lemma mset_insert_by: "mset (insert_by cmp x xs) = add_mset x (mset xs)"
  by (induction xs) simp_all

lemma mset_insertion_sort: "mset (insertion_sort cmp xs) = mset xs"
  by (induction xs) (simp_all add: mset_insert_by)

lemma set_insert_by: "set (insert_by cmp x xs) = insert x (set xs)"
  using mset_insert_by[of cmp x xs, THEN arg_cong, of set_mset] by simp

lemma sorted_insert_by:
  assumes "strict_weak_order cmp"
  shows "sorted_wrt (\<lambda>a b. \<not> cmp b a) xs \<Longrightarrow>
         sorted_wrt (\<lambda>a b. \<not> cmp b a) (insert_by cmp x xs)"
proof (induction xs)
  case Nil
  then show ?case by simp
next
  case (Cons y ys)
  from assms have asym: "\<And>a b. cmp a b \<Longrightarrow> \<not> cmp b a"
    and ntrans: "\<And>a b c. \<not> cmp a b \<Longrightarrow> \<not> cmp b c \<Longrightarrow> \<not> cmp a c"
    unfolding strict_weak_order_def by blast+
  from Cons.prems have tail: "sorted_wrt (\<lambda>a b. \<not> cmp b a) ys"
    and head: "\<forall>z \<in> set ys. \<not> cmp z y" by simp_all
  show ?case
  proof (cases "cmp y x")
    case True
    then have "\<not> cmp x y" by (rule asym)
    with True head Cons.IH[OF tail] show ?thesis by (simp add: set_insert_by)
  next
    case False
    have "\<forall>z \<in> set ys. \<not> cmp z x" using head False ntrans by blast
    with False Cons.prems show ?thesis by simp
  qed
qed

lemma sorted_insertion_sort:
  "strict_weak_order cmp \<Longrightarrow> sorted_wrt (\<lambda>a b. \<not> cmp b a) (insertion_sort cmp xs)"
  by (induction xs) (simp_all add: sorted_insert_by)

lemma sorts_insertion_sort: "sorts insertion_sort"
  by (simp add: sorts_def mset_insertion_sort sorted_insertion_sort)

lemma mset_rotate1_eq: "mset (rotate1 xs) = mset xs"
  by (cases xs) simp_all

lemma mset_rotate_eq: "mset (rotate n xs) = mset xs"
  by (induction n) (simp_all add: mset_rotate1_eq)

lemma permutes_example_lib: "permutes (rng_shuffle example_lib)"
  by (simp add: permutes_def example_lib_def mset_rotate_eq)

lemma strict_weak_order_key:
  fixes key :: "nat \<Rightarrow> 'k::linorder"
  shows "strict_weak_order (\<lambda>i j. key i < key j)"
  unfolding strict_weak_order_def by (auto simp: not_less)

lemma sorts_by_key:
  fixes key :: "nat \<Rightarrow> 'k::linorder"
  assumes "sorts srt"
  shows "mset (srt (\<lambda>i j. key i < key j) xs) = mset xs"
    and "sorted_wrt (\<lambda>i j. key i \<le> key j) (srt (\<lambda>i j. key i < key j) xs)"
proof -
  from assms strict_weak_order_key[of key]
  have "mset (srt (\<lambda>i j. key i < key j) xs) = mset xs \<and>
        sorted_wrt (\<lambda>a b. \<not> key b < key a) (srt (\<lambda>i j. key i < key j) xs)"
    unfolding sorts_def by blast
  then show "mset (srt (\<lambda>i j. key i < key j) xs) = mset xs"
    and "sorted_wrt (\<lambda>i j. key i \<le> key j) (srt (\<lambda>i j. key i < key j) xs)"
    by (simp_all add: not_less)
qed

lemma mapE_Inr_length: "mapE f xs = Inr ys \<Longrightarrow> length ys = length xs"
  by (induction xs arbitrary: ys) (auto simp: bindE_Inr_iff)

text \<open>
  C1, as amended. For every ordering policy that sorts by a score (all but \<^verbatim>\<open>ORIGINAL\<close>,
  \<^verbatim>\<open>REVERSE\<close> and \<^verbatim>\<open>RANDOM\<close>), whenever \<^verbatim>\<open>compute_pattern_order\<close> returns, the new order
  is a permutation of the given one, and along it the scores do not decrease for the
  \<^verbatim>\<open>UP\<close> policies, do not increase for the \<^verbatim>\<open>DOWN\<close> policies, and the pairs do not
  decrease lexicographically for the two composite policies. The order among patterns of
  equal score is not the insertion order: the vector is shuffled before it is sorted (and
  reversed after it for \<^verbatim>\<open>DOWN\<close>).
\<close>

theorem compute_pattern_order_sorted_permutation:
  assumes "sorts (std_sort lib)" "permutes (rng_shuffle lib)"
    "policy \<notin> {ORIGINAL, REVERSE, RANDOM}"
    "compute_pattern_order lib bucket order policy info doms used r
       = Inr (order', r')"
  shows "mset order' = mset order \<and>
    (if policy = ACTIVE_OPS_UP_CG_MIN_DOWN \<or> policy = CG_MIN_DOWN_ACTIVE_OPS_UP then
       \<exists>pairs. mapE (compute_pair policy info doms used) bucket
                  = Inr pairs \<and>
               sorted_wrt (\<lambda>i j. pairs ! i \<le> pairs ! j) order'
     else
       \<exists>scores. mapE (\<lambda>pattern. compute_score pattern policy info doms
                                  used) bucket = Inr scores \<and>
                (if is_down policy
                 then sorted_wrt (\<lambda>i j. scores ! j \<le> scores ! i) order'
                 else sorted_wrt (\<lambda>i j. scores ! i \<le> scores ! j) order'))"
proof -
  obtain shuffled r1 where sh: "rng_shuffle lib r order = (shuffled, r1)"
    by (cases "rng_shuffle lib r order")
  from assms(2) sh have perm: "mset shuffled = mset order"
    unfolding permutes_def by (metis fst_conv)
  from assms(3) have ot: "policy \<noteq> ORIGINAL" "policy \<noteq> REVERSE" "policy \<noteq> RANDOM"
    by simp_all
  show ?thesis
  proof (cases "policy = ACTIVE_OPS_UP_CG_MIN_DOWN \<or> policy = CG_MIN_DOWN_ACTIVE_OPS_UP")
    case True
    with assms(4) ot sh obtain pairs where
      p: "mapE (compute_pair policy info doms used) bucket = Inr pairs"
      and res: "order' = std_sort lib (\<lambda>i j. pairs ! i < pairs ! j) shuffled"
      by (auto simp: compute_pattern_order_def bindE_Inr_iff split: if_splits)
    from res sorts_by_key[OF assms(1), of "\<lambda>i. pairs ! i" shuffled] perm
    have "mset order' = mset order" "sorted_wrt (\<lambda>i j. pairs ! i \<le> pairs ! j) order'"
      by simp_all
    with True p show ?thesis by auto
  next
    case False
    with assms(4) ot sh obtain scores where
      p: "mapE (\<lambda>pattern. compute_score pattern policy info doms used)
            bucket = Inr scores"
      and res: "order' = (if is_down policy
                  then rev (std_sort lib (\<lambda>i j. scores ! i < scores ! j) shuffled)
                  else std_sort lib (\<lambda>i j. scores ! i < scores ! j) shuffled)"
      by (auto simp: compute_pattern_order_def bindE_Inr_iff Let_def split: if_splits)
    note srt = sorts_by_key[OF assms(1), of "\<lambda>i. scores ! i" shuffled]
    from res srt(1) perm have m: "mset order' = mset order" by simp
    have "if is_down policy
          then sorted_wrt (\<lambda>i j. scores ! j \<le> scores ! i) order'
          else sorted_wrt (\<lambda>i j. scores ! i \<le> scores ! j) order'"
      using res srt(2) by (simp add: sorted_wrt_rev)
    with False p m show ?thesis by auto
  qed
qed


theorem compute_pattern_order_sorted_permutation_witness:
  "mset [1, 0] = mset [0, 1 :: nat] \<and>
   (\<exists>scores. mapE (\<lambda>pattern. compute_score pattern PDB_SIZE_DOWN example_task_info [2, 2] [])
                [[0], [1]] = Inr scores \<and>
             sorted_wrt (\<lambda>i j. scores ! j \<le> scores ! i) [1, 0 :: nat])"
proof -
  have s: "sorts (std_sort example_lib)"
    using sorts_insertion_sort by (simp add: example_lib_def)
  have p: "PDB_SIZE_DOWN \<notin> {ORIGINAL, REVERSE, RANDOM}" by simp
  have c: "compute_pattern_order example_lib [[0], [1]] [0, 1] PDB_SIZE_DOWN example_task_info
             [2, 2] [] 0 = Inr ([1, 0], 1)"
    by code_simp
  from compute_pattern_order_sorted_permutation[OF s permutes_example_lib p c]
  show ?thesis by (simp add: is_down_def)
qed

text \<open>
  C1, as stated, fails. Two patterns \<open>[0]\<close> and \<open>[1]\<close> over binary variables have the same
  PDB size 2 and are inserted in the order 0, 1. With a generator state whose shuffle
  leaves the vector as it is, \<^verbatim>\<open>PDB_SIZE_DOWN\<close> returns the order 1, 0, because the sorted
  vector is reversed; with a state whose shuffle swaps the two, \<^verbatim>\<open>PDB_SIZE_UP\<close> returns 1, 0
  even though the sort keeps equal elements in place.
\<close>

theorem compute_pattern_order_ties_counterexample:
  "compute_score [0] PDB_SIZE_UP example_task_info [2, 2] [] = Inr 2 \<and>
   compute_score [1] PDB_SIZE_UP example_task_info [2, 2] [] = Inr 2 \<and>
   compute_score [0] PDB_SIZE_DOWN example_task_info [2, 2] [] = Inr 2 \<and>
   compute_score [1] PDB_SIZE_DOWN example_task_info [2, 2] [] = Inr 2 \<and>
   rng_shuffle example_lib 0 [0, 1] = ([0, 1], 1) \<and>
   compute_pattern_order example_lib [[0], [1]] [0, 1] PDB_SIZE_DOWN example_task_info
     [2, 2] [] 0 = Inr ([1, 0], 1) \<and>
   rng_shuffle example_lib 1 [0, 1] = ([1, 0], 2) \<and>
   compute_pattern_order example_lib [[0], [1]] [0, 1] PDB_SIZE_UP example_task_info
     [2, 2] [] 1 = Inr ([1, 0], 2)"
  by code_simp

subsection \<open>restart\<close>

lemma restart_loop_result:
  "restart_loop lib policy used i n g = Inr g' \<Longrightarrow> i + n \<le> length (orders g) \<Longrightarrow>
   patterns g' = patterns g \<and> task_info g' = task_info g \<and> domains g' = domains g \<and>
   order_type g' = order_type g \<and>
   length (orders g') = length (orders g) \<and>
   (\<forall>k < i. orders g' ! k = orders g ! k) \<and>
   (\<forall>k. i \<le> k \<and> k < i + n \<longrightarrow>
      (\<exists>r r'. compute_pattern_order lib (patterns g ! k) (orders g ! k) policy (task_info g)
                 (domains g) used r = Inr (orders g' ! k, r')))"
proof (induction n arbitrary: i g)
  case 0
  then show ?case by auto
next
  case (Suc n)
  from Suc.prems(1) obtain new_order r1 where
    cpo: "compute_pattern_order lib (patterns g ! i) (orders g ! i) policy (task_info g)
            (domains g) used (rng g) = Inr (new_order, r1)" and
    rec: "restart_loop lib policy used (Suc i) n
            (g\<lparr>orders := (orders g)[i := new_order], rng := r1\<rparr>) = Inr g'"
    by (auto simp: bindE_Inr_iff vec_at_Inr_iff)
  let ?g1 = "g\<lparr>orders := (orders g)[i := new_order], rng := r1\<rparr>"
  from Suc.prems(2) have len: "Suc i + n \<le> length (orders ?g1)" and i: "i < length (orders g)"
    by simp_all
  from Suc.IH[OF rec len] have
    eq: "patterns g' = patterns ?g1" "task_info g' = task_info ?g1" "domains g' = domains ?g1"
      "order_type g' = order_type ?g1" and
    l: "length (orders g') = length (orders ?g1)" and
    before: "\<forall>k < Suc i. orders g' ! k = orders ?g1 ! k" and
    later: "\<forall>k. Suc i \<le> k \<and> k < Suc i + n \<longrightarrow>
      (\<exists>r r'. compute_pattern_order lib (patterns ?g1 ! k) (orders ?g1 ! k) policy
                 (task_info ?g1) (domains ?g1) used r = Inr (orders g' ! k, r'))"
    by blast+
  from eq have eq': "patterns g' = patterns g" "task_info g' = task_info g"
    "domains g' = domains g" "order_type g' = order_type g" by simp_all
  have b: "\<forall>k < i. orders g' ! k = orders g ! k" using before by simp
  have at_i: "orders g' ! i = new_order" using before i by simp
  have "\<exists>r r'. compute_pattern_order lib (patterns g ! k) (orders g ! k) policy (task_info g)
                 (domains g) used r = Inr (orders g' ! k, r')"
    if "i \<le> k" "k < i + Suc n" for k
  proof (cases "k = i")
    case True
    with cpo at_i show ?thesis by blast
  next
    case False
    with that have "Suc i \<le> k \<and> k < Suc i + n" by simp
    with later False show ?thesis by simp
  qed
  with eq' l b show ?case by simp
qed

text \<open>When the parts of \<^verbatim>\<open>compute_pattern_order\<close> return normally.\<close>

lemma mapE_succeeds:
  "\<forall>x \<in> set xs. \<exists>y. f x = Inr y \<Longrightarrow> \<exists>ys. mapE f xs = Inr ys \<and> length ys = length xs"
proof (induction xs)
  case Nil
  then show ?case by simp
next
  case (Cons x xs)
  then obtain y ys where "f x = Inr y" "mapE f xs = Inr ys" "length ys = length xs"
    by auto
  then show ?case by (simp add: bindE_Inr)
qed

lemma get_pdb_size_from_succeeds:
  "\<forall>var \<in> set pattern. var < length doms \<Longrightarrow> \<exists>r. get_pdb_size_from doms sz pattern = Inr r"
proof (induction pattern arbitrary: sz)
  case Nil
  then show ?case by simp
next
  case (Cons var pattern)
  then have v: "vec_at doms var = Inr (doms ! var)" and
    rest: "\<forall>var \<in> set pattern. var < length doms" by (simp_all add: vec_at_def)
  show ?case
  proof (cases "is_product_within_limit sz (doms ! var) INT_MAX")
    case True
    with v Cons.IH[OF rest, of "wrap32 (sz * doms ! var)"] show ?thesis
      by (simp add: bindE_Inr)
  next
    case False
    with v show ?thesis by (simp add: bindE_Inr)
  qed
qed

lemma count_new_pairs_with_succeeds:
  assumes "used_pairs_ok n used" "var1 < n"
  shows "\<forall>var \<in> set rest. var < n \<Longrightarrow> \<exists>r. count_new_pairs_with used var1 rest = Inr r"
proof (induction rest)
  case Nil
  then show ?case by simp
next
  case (Cons var2 rest)
  from assms have row: "vec_at used var1 = Inr (used ! var1)" "length (used ! var1) = n"
    by (simp_all add: used_pairs_ok_def vec_at_def)
  from Cons.prems row(2) have cell: "vec_at (used ! var1) var2 = Inr (used ! var1 ! var2)"
    by (simp add: vec_at_def)
  from Cons obtain r where "count_new_pairs_with used var1 rest = Inr r" by auto
  with row(1) cell show ?case by (simp add: bindE_Inr)
qed

lemma get_num_new_var_pairs_succeeds:
  assumes "used_pairs_ok n used"
  shows "\<forall>var \<in> set pattern. var < n \<Longrightarrow> \<exists>r. get_num_new_var_pairs pattern used = Inr r"
proof (induction pattern)
  case Nil
  then show ?case by simp
next
  case (Cons var1 rest)
  then have v: "var1 < n" and r: "\<forall>var \<in> set rest. var < n" by simp_all
  from count_new_pairs_with_succeeds[OF assms v r] obtain c where
    "count_new_pairs_with used var1 rest = Inr c" by blast
  moreover from Cons.IH[OF r] obtain m where "get_num_new_var_pairs rest used = Inr m"
    by blast
  ultimately show ?case by (simp add: bindE_Inr)
qed

lemma compute_score_succeeds:
  assumes "used_pairs_ok (length doms) used" "\<forall>var \<in> set pattern. var < length doms"
    "policy \<notin> {ORIGINAL, RANDOM, REVERSE, ALT_TWO, ACTIVE_OPS_UP_CG_MIN_DOWN,
                 CG_MIN_DOWN_ACTIVE_OPS_UP}"
  shows "\<exists>score. compute_score pattern policy info doms used = Inr score"
  using assms(3) get_pdb_size_from_succeeds[OF assms(2), of 1]
    get_num_new_var_pairs_succeeds[OF assms(1,2)]
  by (cases policy) (simp_all add: compute_score_def get_pdb_size_def)

lemma compute_pair_succeeds:
  assumes "policy = ACTIVE_OPS_UP_CG_MIN_DOWN \<or> policy = CG_MIN_DOWN_ACTIVE_OPS_UP"
  shows "\<exists>pair. compute_pair policy info doms used pattern = Inr pair"
  using assms by (auto simp: compute_pair_def compute_score_def bindE_Inr)

lemma compute_pattern_order_succeeds:
  assumes "permutes (rng_shuffle lib)" "length bucket = length order"
    "\<forall>i \<in> set order. i < length bucket" "policy \<noteq> ALT_TWO"
    "\<forall>pattern \<in> set bucket. \<forall>var \<in> set pattern. var < length doms"
    "used_pairs_ok (length doms) used"
  shows "\<exists>order' r'. compute_pattern_order lib bucket order policy info doms used r
            = Inr (order', r')"
proof -
  obtain shuffled r1 where sh: "rng_shuffle lib r order = (shuffled, r1)"
    by (cases "rng_shuffle lib r order")
  from assms(1) sh have "mset shuffled = mset order"
    unfolding permutes_def by (metis fst_conv)
  then have "set shuffled = set order" by (rule mset_eq_setD)
  with assms(3) have inr: "\<forall>i \<in> set shuffled. i < length bucket" by simp
  consider (plain) "policy \<in> {ORIGINAL, REVERSE, RANDOM}"
    | (pairs) "policy = ACTIVE_OPS_UP_CG_MIN_DOWN \<or> policy = CG_MIN_DOWN_ACTIVE_OPS_UP"
    | (scores) "policy \<notin> {ORIGINAL, RANDOM, REVERSE, ALT_TWO, ACTIVE_OPS_UP_CG_MIN_DOWN,
                 CG_MIN_DOWN_ACTIVE_OPS_UP}"
    using assms(4) by blast
  then show ?thesis
  proof cases
    case plain
    with assms(2) sh show ?thesis by (auto simp: compute_pattern_order_def)
  next
    case pairs
    from mapE_succeeds[of bucket "compute_pair policy info doms used"]
      compute_pair_succeeds[OF pairs]
    obtain ps where ps: "mapE (compute_pair policy info doms used) bucket = Inr ps"
      "length ps = length bucket" by blast
    with inr have "\<not> (\<exists>i \<in> set shuffled. length ps \<le> i)" by auto
    with pairs assms(2) sh ps(1) show ?thesis
      by (auto simp: compute_pattern_order_def bindE_Inr)
  next
    case scores
    from mapE_succeeds[of bucket "\<lambda>pattern. compute_score pattern policy info doms used"]
      compute_score_succeeds[OF assms(6) _ scores] assms(5)
    obtain ss where ss: "mapE (\<lambda>pattern. compute_score pattern policy info doms used) bucket
        = Inr ss" "length ss = length bucket" by blast
    with inr have "\<not> (\<exists>i \<in> set shuffled. length ss \<le> i)" by auto
    with scores assms(2) sh ss(1) show ?thesis
      by (auto simp: compute_pattern_order_def bindE_Inr Let_def)
  qed
qed

lemma compute_pattern_order_mset:
  assumes "sorts (std_sort lib)" "permutes (rng_shuffle lib)"
    "compute_pattern_order lib bucket order policy info doms used r = Inr (order', r')"
  shows "mset order' = mset order"
proof -
  obtain shuffled r1 where sh: "rng_shuffle lib r order = (shuffled, r1)"
    by (cases "rng_shuffle lib r order")
  from assms(2) sh have perm: "mset shuffled = mset order"
    unfolding permutes_def by (metis fst_conv)
  consider (orig) "policy = ORIGINAL" | (rev) "policy = REVERSE" | (rand) "policy = RANDOM"
    | (pairs) "policy = ACTIVE_OPS_UP_CG_MIN_DOWN \<or> policy = CG_MIN_DOWN_ACTIVE_OPS_UP"
    | (scores) "policy \<notin> {ORIGINAL, RANDOM, REVERSE, ACTIVE_OPS_UP_CG_MIN_DOWN,
                 CG_MIN_DOWN_ACTIVE_OPS_UP}"
    by blast
  then show ?thesis
  proof cases
    case orig
    with assms(3) show ?thesis by (auto simp: compute_pattern_order_def split: if_splits)
  next
    case rev
    with assms(3) show ?thesis by (auto simp: compute_pattern_order_def split: if_splits)
  next
    case rand
    with assms(3) sh perm show ?thesis
      by (auto simp: compute_pattern_order_def split: if_splits)
  next
    case pairs
    with assms(3) sh obtain ps :: "(int \<times> int) list" where
      "order' = std_sort lib (\<lambda>i j. ps ! i < ps ! j) shuffled"
      by (auto simp: compute_pattern_order_def bindE_Inr_iff split: if_splits)
    with sorts_by_key(1)[OF assms(1), of "\<lambda>i. ps ! i" shuffled] perm show ?thesis by simp
  next
    case scores
    with assms(3) sh obtain ss :: "int list" where
      "order' = (if is_down policy
                  then rev (std_sort lib (\<lambda>i j. ss ! i < ss ! j) shuffled)
                  else std_sort lib (\<lambda>i j. ss ! i < ss ! j) shuffled)"
      by (auto simp: compute_pattern_order_def bindE_Inr_iff Let_def split: if_splits)
    with sorts_by_key(1)[OF assms(1), of "\<lambda>i. ss ! i" shuffled] perm show ?thesis by simp
  qed
qed

text \<open>A bucket with its order, as \<open>generator_ok\<close> has it.\<close>

lemma bucket_order_valid:
  assumes "mset order = mset [0 ..< length bucket]"
  shows "length bucket = length order" "\<forall>i \<in> set order. i < length bucket"
proof -
  from assms have "size (mset order) = size (mset [0 ..< length bucket])" by simp
  then show "length bucket = length order" by simp
  from assms have "set order = set [0 ..< length bucket]" by (rule mset_eq_setD)
  then show "\<forall>i \<in> set order. i < length bucket" by simp
qed

lemma restart_loop_succeeds:
  assumes "permutes (rng_shuffle lib)" "policy \<noteq> ALT_TWO"
    "used_pairs_ok (length (domains g0)) used"
  shows "domains g = domains g0 \<Longrightarrow> i + n \<le> length (orders g) \<Longrightarrow>
    length (patterns g) = length (orders g) \<Longrightarrow>
    (\<forall>k. i \<le> k \<and> k < i + n \<longrightarrow>
       mset (orders g ! k) = mset [0 ..< length (patterns g ! k)] \<and>
       (\<forall>pattern \<in> set (patterns g ! k). \<forall>var \<in> set pattern. var < length (domains g))) \<Longrightarrow>
    \<exists>g' rs. restart_loop lib policy used i n g = Inr g' \<and>
      length rs = Suc n \<and> rs ! 0 = rng g \<and> rs ! n = rng g' \<and>
      (\<forall>j < n. compute_pattern_order lib (patterns g ! (i + j)) (orders g ! (i + j)) policy
                  (task_info g) (domains g) used (rs ! j)
                = Inr (orders g' ! (i + j), rs ! Suc j))"
proof (induction n arbitrary: i g)
  case 0
  have "length [rng g] = Suc 0 \<and> [rng g] ! 0 = rng g" by simp
  then show ?case by (intro exI[of _ g] exI[of _ "[rng g]"]) simp
next
  case (Suc n)
  from Suc.prems have i: "i < length (orders g)" "i < length (patterns g)" by simp_all
  from Suc.prems(4)[THEN spec, of i]
  have here: "mset (orders g ! i) = mset [0 ..< length (patterns g ! i)]"
    "\<forall>pattern \<in> set (patterns g ! i). \<forall>var \<in> set pattern. var < length (domains g)"
    by simp_all
  note valid = bucket_order_valid[OF here(1)]
  from assms(3) Suc.prems(1) have used: "used_pairs_ok (length (domains g)) used" by simp
  from compute_pattern_order_succeeds[OF assms(1) valid assms(2) here(2) used,
      of "task_info g" "rng g"]
  obtain new_order r1 where cpo:
    "compute_pattern_order lib (patterns g ! i) (orders g ! i) policy (task_info g)
       (domains g) used (rng g) = Inr (new_order, r1)" by blast
  let ?g1 = "g\<lparr>orders := (orders g)[i := new_order], rng := r1\<rparr>"
  have step: "restart_loop lib policy used i (Suc n) g =
              restart_loop lib policy used (Suc i) n ?g1"
    using i cpo by (simp add: bindE_Inr vec_at_def)
  have p1: "domains ?g1 = domains g0" "Suc i + n \<le> length (orders ?g1)"
    "length (patterns ?g1) = length (orders ?g1)"
    using Suc.prems by simp_all
  have p2: "\<forall>k. Suc i \<le> k \<and> k < Suc i + n \<longrightarrow>
       mset (orders ?g1 ! k) = mset [0 ..< length (patterns ?g1 ! k)] \<and>
       (\<forall>pattern \<in> set (patterns ?g1 ! k). \<forall>var \<in> set pattern. var < length (domains ?g1))"
  proof (intro allI impI)
    fix k assume k: "Suc i \<le> k \<and> k < Suc i + n"
    then have "i \<le> k \<and> k < i + Suc n" and ne: "k \<noteq> i" by simp_all
    with Suc.prems(4)[THEN spec, of k]
    have "mset (orders g ! k) = mset [0 ..< length (patterns g ! k)] \<and>
       (\<forall>pattern \<in> set (patterns g ! k). \<forall>var \<in> set pattern. var < length (domains g))"
      by blast
    with ne show "mset (orders ?g1 ! k) = mset [0 ..< length (patterns ?g1 ! k)] \<and>
       (\<forall>pattern \<in> set (patterns ?g1 ! k). \<forall>var \<in> set pattern. var < length (domains ?g1))"
      by simp
  qed
  from Suc.IH[OF p1 p2] obtain g' rs where
    loop: "restart_loop lib policy used (Suc i) n ?g1 = Inr g'" and
    rs: "length rs = Suc n" "rs ! 0 = r1" "rs ! n = rng g'" and
    each: "\<forall>j < n. compute_pattern_order lib (patterns g ! (Suc i + j))
                  ((orders g)[i := new_order] ! (Suc i + j)) policy
                  (task_info g) (domains g) used (rs ! j)
                = Inr (orders g' ! (Suc i + j), rs ! Suc j)"
    by auto
  from restart_loop_result[OF loop] p1(2) have "\<forall>k < Suc i. orders g' ! k = orders ?g1 ! k"
    by blast
  with i have at_i: "orders g' ! i = new_order" by simp
  let ?rs = "rng g # rs"
  have "compute_pattern_order lib (patterns g ! (i + j)) (orders g ! (i + j)) policy
                  (task_info g) (domains g) used (?rs ! j)
                = Inr (orders g' ! (i + j), ?rs ! Suc j)" if "j < Suc n" for j
  proof (cases j)
    case 0
    with cpo at_i rs(2) show ?thesis by simp
  next
    case (Suc j')
    with that have "j' < n" by simp
    with each have "compute_pattern_order lib (patterns g ! (Suc i + j'))
                  ((orders g)[i := new_order] ! (Suc i + j')) policy
                  (task_info g) (domains g) used (rs ! j')
                = Inr (orders g' ! (Suc i + j'), rs ! Suc j')" by blast
    with Suc show ?thesis by simp
  qed
  moreover have "length ?rs = Suc (Suc n)" "?rs ! 0 = rng g" "?rs ! Suc n = rng g'"
    using rs by simp_all
  ultimately show ?case using step loop by (intro exI[of _ g'] exI[of _ ?rs]) simp
qed

lemma get_order_type_fields:
  "orders (snd (get_order_type lib g)) = orders g"
  "patterns (snd (get_order_type lib g)) = patterns g"
  "task_info (snd (get_order_type lib g)) = task_info g"
  "domains (snd (get_order_type lib g)) = domains g"
  "order_type (snd (get_order_type lib g)) = order_type g"
  by (simp_all add: get_order_type_def Let_def split: prod.splits)

lemma get_order_type_resolved:
  "fst (get_order_type lib g) \<noteq> ALT_TWO"
  by (simp add: get_order_type_def Let_def split: prod.splits)

lemma restart_data_dependent:
  assumes "order_type g \<in> {RANDOM, NEW_VAR_PAIRS_UP, NEW_VAR_PAIRS_DOWN, ALT_TWO}"
  shows "restart lib g used =
           restart_loop lib (fst (get_order_type lib g)) used 0 (length (orders g))
             (snd (get_order_type lib g))"
proof -
  obtain policy g1 where got: "get_order_type lib g = (policy, g1)"
    by (cases "get_order_type lib g")
  with get_order_type_fields(1)[of lib g] have "orders g1 = orders g" by simp
  with assms got show ?thesis by (auto simp: restart_def)
qed

lemma generator_ok_bucket:
  "generator_ok g \<Longrightarrow> k < length (orders g) \<Longrightarrow>
   mset (orders g ! k) = mset [0 ..< length (patterns g ! k)] \<and>
   (\<forall>pattern \<in> set (patterns g ! k). \<forall>var \<in> set pattern. var < length (domains g))"
  unfolding generator_ok_def by blast

lemma restart_recomputes:
  assumes dd: "order_type g \<in> {RANDOM, NEW_VAR_PAIRS_UP, NEW_VAR_PAIRS_DOWN, ALT_TWO}"
    and perm: "permutes (rng_shuffle lib)" and ok: "generator_ok g"
    and used: "used_pairs_ok (length (domains g)) used"
  shows "\<exists>g' rs. restart lib g used = Inr g' \<and>
         length (orders g') = length (orders g) \<and> patterns g' = patterns g \<and>
         order_type g' = order_type g \<and>
         length rs = Suc (length (orders g)) \<and>
         rs ! 0 = rng (snd (get_order_type lib g)) \<and>
         rs ! length (orders g) = rng g' \<and>
         (\<forall>k < length (orders g).
            compute_pattern_order lib (patterns g ! k) (orders g ! k)
              (fst (get_order_type lib g)) (task_info g) (domains g) used (rs ! k)
            = Inr (orders g' ! k, rs ! Suc k))"
proof -
  let ?policy = "fst (get_order_type lib g)" and ?g1 = "snd (get_order_type lib g)"
  note f = get_order_type_fields[of lib g]
  from ok have len: "length (patterns ?g1) = length (orders ?g1)"
    by (simp add: f generator_ok_def)
  have buckets: "\<forall>k. 0 \<le> k \<and> k < 0 + length (orders g) \<longrightarrow>
     mset (orders ?g1 ! k) = mset [0 ..< length (patterns ?g1 ! k)] \<and>
     (\<forall>pattern \<in> set (patterns ?g1 ! k). \<forall>var \<in> set pattern. var < length (domains ?g1))"
    using generator_ok_bucket[OF ok] by (simp add: f)
  from restart_loop_succeeds[OF perm get_order_type_resolved used, of ?g1 0 "length (orders g)"
      lib g, OF f(4) _ len buckets]
  obtain g' rs where
    loop: "restart_loop lib ?policy used 0 (length (orders g)) ?g1 = Inr g'" and
    rs: "length rs = Suc (length (orders g))" "rs ! 0 = rng ?g1"
      "rs ! length (orders g) = rng g'" and
    each: "\<forall>j < length (orders g).
        compute_pattern_order lib (patterns ?g1 ! (0 + j)) (orders ?g1 ! (0 + j)) ?policy
          (task_info ?g1) (domains ?g1) used (rs ! j)
        = Inr (orders g' ! (0 + j), rs ! Suc j)"
    by (auto simp: f)
  from restart_loop_result[OF loop] have
    "patterns g' = patterns ?g1" "order_type g' = order_type ?g1"
    "length (orders g') = length (orders ?g1)" by (simp_all add: f)
  with loop rs each restart_data_dependent[OF dd, of lib used] show ?thesis
    by (intro exI[of _ g'] exI[of _ rs]) (simp add: f)
qed

text \<open>The constructor, \<^verbatim>\<open>get_pattern\<close> and \<^verbatim>\<open>restart\<close> keep the generator well formed.\<close>

lemma new_generator_ok:
  assumes "new_SequentialPatternGenerator lib info m sga order0 rng0 doms = Inr g"
  shows "generator_ok g" "domains g = doms" "order_type g = order0"
    "default_order_type g \<noteq> ALT_TWO"
proof -
  let ?g0 = "\<lparr>task_info = info, max_pattern_size = min m (int (length doms)),
               only_sga_patterns = sga, order_type = order0, default_order_type = order0,
               rng = rng0, domains = doms, patterns = [], orders = [],
               cached_pattern_size = 0, num_generated_patterns = 0\<rparr>"
  from assms have g: "g = (snd (get_order_type lib ?g0))
                        \<lparr>default_order_type := fst (get_order_type lib ?g0)\<rparr>"
    by (simp add: new_SequentialPatternGenerator_def Let_def split: if_splits prod.splits)
  note f = get_order_type_fields[of lib ?g0]
  from g f show "generator_ok g" by (simp add: generator_ok_def)
  from g f show "domains g = doms" by simp
  from g f show "order_type g = order0" by simp
  from g get_order_type_resolved[of lib ?g0] show "default_order_type g \<noteq> ALT_TWO" by simp
qed

lemma generator_ok_append:
  assumes "generator_ok g" "mset new_order = mset [0 ..< length bucket]"
    "\<forall>pattern \<in> set bucket. \<forall>var \<in> set pattern. var < length (domains g)"
  shows "generator_ok (g\<lparr>cached_pattern_size := c, num_generated_patterns := n,
                         patterns := patterns g @ [bucket], orders := orders g @ [new_order],
                         rng := r\<rparr>)"
proof -
  from assms(1) have len: "length (patterns g) = length (orders g)"
    by (simp add: generator_ok_def)
  have "mset ((orders g @ [new_order]) ! k) =
          mset [0 ..< length ((patterns g @ [bucket]) ! k)] \<and>
        (\<forall>pattern \<in> set ((patterns g @ [bucket]) ! k).
           \<forall>var \<in> set pattern. var < length (domains g))"
    if "k < Suc (length (orders g))" for k
  proof (cases "k < length (orders g)")
    case True
    with generator_ok_bucket[OF assms(1) True] len show ?thesis by (simp add: nth_append)
  next
    case False
    with that have "k = length (orders g)" by simp
    with assms(2,3) len show ?thesis by (simp add: nth_append)
  qed
  with len show ?thesis by (simp add: generator_ok_def)
qed

lemma get_pattern_generator_ok:
  "sorts (std_sort lib) \<Longrightarrow> permutes (rng_shuffle lib) \<Longrightarrow>
   \<forall>n bucket. systematic n = Some bucket \<longrightarrow>
       (\<forall>pattern \<in> set bucket. \<forall>var \<in> set pattern. var < num_vars) \<Longrightarrow>
   generator_ok g \<Longrightarrow> length (domains g) = num_vars \<Longrightarrow>
         get_pattern lib systematic g pattern_id used = Inr (pattern, g') \<Longrightarrow>
         generator_ok g' \<and> domains g' = domains g \<and> order_type g' = order_type g"
proof (induction lib systematic g pattern_id used rule: get_pattern.induct)
  case (1 lib systematic g pattern_id used)
  note sorts = "1.prems"(1) and perm = "1.prems"(2)
  show ?case
  proof (cases "int pattern_id < num_generated_patterns g")
    case True
    with "1.prems"(6) have "g' = g"
      by (subst (asm) get_pattern.simps)
         (auto simp: bindE_Inr_iff split: option.splits)
    with "1.prems"(4) show ?thesis by simp
  next
    case False
    note not_cached = False
    show ?thesis
    proof (cases "cached_pattern_size g < max_pattern_size g")
      case False
      with not_cached "1.prems"(6) have "g' = g"
        by (subst (asm) get_pattern.simps) simp
      with "1.prems"(4) show ?thesis by simp
    next
      case True
      show ?thesis
      proof (cases "systematic (cached_pattern_size g + 1)")
        case None
        with True not_cached "1.prems"(6) have "g' = g"
          by (subst (asm) get_pattern.simps) simp
        with "1.prems"(4) show ?thesis by simp
      next
        case (Some bucket)
        from "1.prems"(3) Some "1.prems"(5)
        have vars: "\<forall>pattern \<in> set bucket. \<forall>var \<in> set pattern. var < length (domains g)"
          by blast
        from True not_cached Some "1.prems"(6) obtain r where
          cpo: "compute_pattern_order lib bucket [0 ..< length bucket] (default_order_type g)
                  (task_info g) (domains g) used (rng g) = Inr r" and
          rec: "get_pattern lib systematic
                    (g\<lparr>cached_pattern_size := cached_pattern_size g + 1,
                       num_generated_patterns := num_generated_patterns g + int (length bucket),
                       patterns := patterns g @ [bucket],
                       orders := orders g @ [fst r],
                       rng := snd r\<rparr>) pattern_id used = Inr (pattern, g')"
          by (subst (asm) get_pattern.simps) (auto split: sum.splits)
        let ?g1 = "g\<lparr>cached_pattern_size := cached_pattern_size g + 1,
                       num_generated_patterns := num_generated_patterns g + int (length bucket),
                       patterns := patterns g @ [bucket],
                       orders := orders g @ [fst r],
                       rng := snd r\<rparr>"
        from cpo have "compute_pattern_order lib bucket [0 ..< length bucket]
                  (default_order_type g) (task_info g) (domains g) used (rng g)
                 = Inr (fst r, snd r)" by simp
        from compute_pattern_order_mset[OF sorts perm this]
        have m: "mset (fst r) = mset [0 ..< length bucket]" .
        from generator_ok_append[OF "1.prems"(4) m vars] have ok1: "generator_ok ?g1" .
        have d1: "length (domains ?g1) = num_vars" using "1.prems"(5) by simp
        from "1.IH"[OF not_cached True Some cpo sorts perm "1.prems"(3) ok1 d1 rec]
        show ?thesis by simp
      qed
    qed
  qed
qed

lemma restart_generator_ok:
  assumes "sorts (std_sort lib)" "permutes (rng_shuffle lib)" "generator_ok g"
    "restart lib g used = Inr g'"
  shows "generator_ok g'" "domains g' = domains g" "order_type g' = order_type g"
proof -
  have "generator_ok g' \<and> domains g' = domains g \<and> order_type g' = order_type g"
  proof (cases "order_type g \<in> {RANDOM, NEW_VAR_PAIRS_UP, NEW_VAR_PAIRS_DOWN, ALT_TWO}")
    case False
    with assms(4) have "g' = g" by (simp add: restart_def)
    with assms(3) show ?thesis by simp
  next
    case True
    let ?policy = "fst (get_order_type lib g)" and ?g1 = "snd (get_order_type lib g)"
    note f = get_order_type_fields[of lib g]
    from assms(4) restart_data_dependent[OF True, of lib used]
    have loop: "restart_loop lib ?policy used 0 (length (orders g)) ?g1 = Inr g'" by simp
    from restart_loop_result[OF loop] have
      fr: "patterns g' = patterns g" "domains g' = domains g" "order_type g' = order_type g"
        "length (orders g') = length (orders g)" and
      each: "\<forall>k. 0 \<le> k \<and> k < 0 + length (orders g) \<longrightarrow>
        (\<exists>r r'. compute_pattern_order lib (patterns ?g1 ! k) (orders ?g1 ! k) ?policy
                 (task_info ?g1) (domains ?g1) used r = Inr (orders g' ! k, r'))"
      by (simp_all add: f)
    have "mset (orders g' ! k) = mset [0 ..< length (patterns g' ! k)] \<and>
          (\<forall>pattern \<in> set (patterns g' ! k). \<forall>var \<in> set pattern. var < length (domains g'))"
      if k: "k < length (orders g')" for k
    proof -
      from k fr(4) have k': "k < length (orders g)" by simp
      with each obtain r r' where
        "compute_pattern_order lib (patterns g ! k) (orders g ! k) ?policy
                 (task_info g) (domains g) used r = Inr (orders g' ! k, r')"
        by (auto simp: f)
      from compute_pattern_order_mset[OF assms(1,2) this]
      have "mset (orders g' ! k) = mset (orders g ! k)" .
      with generator_ok_bucket[OF assms(3) k'] fr show ?thesis by simp
    qed
    moreover from assms(3) fr have "length (patterns g') = length (orders g')"
      by (simp add: generator_ok_def)
    ultimately have "generator_ok g'" by (simp add: generator_ok_def)
    with fr show ?thesis by simp
  qed
  then show "generator_ok g'" "domains g' = domains g" "order_type g' = order_type g"
    by simp_all
qed

text \<open>
  C7. For every ordering policy other than \<^verbatim>\<open>RANDOM\<close>, \<^verbatim>\<open>NEW_VAR_PAIRS_UP\<close>,
  \<^verbatim>\<open>NEW_VAR_PAIRS_DOWN\<close> and \<^verbatim>\<open>ALT_TWO\<close>, \<^verbatim>\<open>restart\<close> returns the generator as it was:
  every cached order, and the random number generator, are unchanged. For those four
  policies, on a generator as the constructor and \<^verbatim>\<open>get_pattern\<close> build it and with a
  matrix of used variable pairs over the variables of the task, \<^verbatim>\<open>restart\<close> returns
  normally: the buckets are the same, and the orders are recomputed one bucket after the
  other, the new order of bucket \<open>k\<close> being the result of \<^verbatim>\<open>compute_pattern_order\<close> on the
  bucket and its previous order for the policy that \<^verbatim>\<open>get_order_type\<close> chose, started in
  the state \<open>rs ! k\<close> in which the random number generator was left by bucket \<open>k - 1\<close>
  (by \<^verbatim>\<open>get_order_type\<close> for the first bucket).
\<close>

theorem restart_recomputes_only_data_dependent:
  "(order_type g \<notin> {RANDOM, NEW_VAR_PAIRS_UP, NEW_VAR_PAIRS_DOWN, ALT_TWO} \<longrightarrow>
      restart lib g used = Inr g) \<and>
   (order_type g \<in> {RANDOM, NEW_VAR_PAIRS_UP, NEW_VAR_PAIRS_DOWN, ALT_TWO} \<and>
    permutes (rng_shuffle lib) \<and> generator_ok g \<and>
    used_pairs_ok (length (domains g)) used \<longrightarrow>
      (\<exists>g' rs. restart lib g used = Inr g' \<and>
         length (orders g') = length (orders g) \<and> patterns g' = patterns g \<and>
         order_type g' = order_type g \<and>
         length rs = Suc (length (orders g)) \<and>
         rs ! 0 = rng (snd (get_order_type lib g)) \<and>
         rs ! length (orders g) = rng g' \<and>
         (\<forall>k < length (orders g).
            compute_pattern_order lib (patterns g ! k) (orders g ! k)
              (fst (get_order_type lib g)) (task_info g) (domains g) used (rs ! k)
            = Inr (orders g' ! k, rs ! Suc k))))"
proof -
  have frame: "restart lib g used = Inr g"
    if "order_type g \<notin> {RANDOM, NEW_VAR_PAIRS_UP, NEW_VAR_PAIRS_DOWN, ALT_TWO}"
    using that by (simp add: restart_def)
  from frame restart_recomputes show ?thesis by blast
qed

theorem restart_recomputes_only_data_dependent_witness:
  "restart example_lib example_generator [[False, False], [False, False]]
     = Inr example_generator \<and>
   (\<exists>g'. restart example_lib (example_generator\<lparr>order_type := RANDOM, rng := 1\<rparr>)
            [[False, False], [False, False]] = Inr g' \<and>
          orders g' = [[1, 0]] \<and> rng g' = 2)"
proof -
  let ?used = "[[False, False], [False, False]]"
  let ?g = "example_generator\<lparr>order_type := RANDOM, rng := 1\<rparr>"
  have a: "order_type example_generator \<notin> {RANDOM, NEW_VAR_PAIRS_UP, NEW_VAR_PAIRS_DOWN, ALT_TWO}"
    by (simp add: example_generator_def)
  have b: "order_type ?g \<in> {RANDOM, NEW_VAR_PAIRS_UP, NEW_VAR_PAIRS_DOWN, ALT_TWO}" by simp
  have ok: "generator_ok ?g"
    by (simp add: generator_ok_def example_generator_def upt_2)
  have used: "used_pairs_ok (length (domains ?g)) ?used"
    by (simp add: used_pairs_ok_def example_generator_def)
  from restart_recomputes_only_data_dependent[of example_generator example_lib ?used] a
  have first: "restart example_lib example_generator ?used = Inr example_generator" by blast
  from restart_recomputes_only_data_dependent[of ?g example_lib ?used] b
    permutes_example_lib ok used
  obtain g' rs where
    r: "restart example_lib ?g ?used = Inr g'" and
    l: "length (orders g') = length (orders ?g)" and
    rs: "rs ! 0 = rng (snd (get_order_type example_lib ?g))"
      "rs ! length (orders ?g) = rng g'" and
    each: "\<forall>k < length (orders ?g).
            compute_pattern_order example_lib (patterns ?g ! k) (orders ?g ! k)
              (fst (get_order_type example_lib ?g)) (task_info ?g) (domains ?g) ?used (rs ! k)
            = Inr (orders g' ! k, rs ! Suc k)"
    by blast
  from rs(1) have rs0: "rs ! 0 = 1" by (simp add: get_order_type_def example_generator_def)
  from each have "compute_pattern_order example_lib (patterns ?g ! 0) (orders ?g ! 0)
              (fst (get_order_type example_lib ?g)) (task_info ?g) (domains ?g) ?used (rs ! 0)
            = Inr (orders g' ! 0, rs ! Suc 0)"
    by (simp add: example_generator_def)
  with rs0 have "compute_pattern_order example_lib [[0], [1]] [0, 1] RANDOM example_task_info
              [2, 2] ?used 1 = Inr (orders g' ! 0, rs ! Suc 0)"
    by (simp add: example_generator_def get_order_type_def)
  moreover have "compute_pattern_order example_lib [[0], [1]] [0, 1] RANDOM example_task_info
              [2, 2] ?used 1 = Inr ([1, 0], 2)"
    by code_simp
  ultimately have o: "orders g' ! 0 = [1, 0]" "rs ! Suc 0 = 2" by simp_all
  from l have "length (orders g') = 1" by (simp add: example_generator_def)
  with o(1) have o': "orders g' = [[1, 0]]"
    by (cases "orders g'") simp_all
  from rs(2) o(2) have "rng g' = 2" by (simp add: example_generator_def)
  with first r o' show ?thesis by blast
qed

lemma restart_succeeds_on_built_generator:
  assumes "sorts (std_sort lib)" "permutes (rng_shuffle lib)"
    "\<forall>n bucket. systematic n = Some bucket \<longrightarrow>
       (\<forall>pattern \<in> set bucket. \<forall>var \<in> set pattern. var < length doms)"
    "new_SequentialPatternGenerator lib info m sga order0 rng0 doms = Inr g0"
    "get_pattern lib systematic g0 pattern_id used0 = Inr (pattern, g)"
    "used_pairs_ok (length doms) used"
  shows "\<exists>g'. restart lib g used = Inr g' \<and> generator_ok g'"
proof -
  note new = new_generator_ok[OF assms(4)]
  from new(2) have d0: "length (domains g0) = length doms" by simp
  from get_pattern_generator_ok[OF assms(1,2,3) new(1) d0 assms(5)]
  have ok: "generator_ok g" and d: "domains g = domains g0" by simp_all
  from assms(6) d new(2) have used: "used_pairs_ok (length (domains g)) used" by simp
  have "\<exists>g'. restart lib g used = Inr g'"
  proof (cases "order_type g \<in> {RANDOM, NEW_VAR_PAIRS_UP, NEW_VAR_PAIRS_DOWN, ALT_TWO}")
    case True
    from restart_recomputes[OF True assms(2) ok used] show ?thesis by blast
  next
    case False
    then show ?thesis by (simp add: restart_def)
  qed
  then obtain g' where r: "restart lib g used = Inr g'" by blast
  from restart_generator_ok(1)[OF assms(1,2) ok r] r show ?thesis by blast
qed

subsection \<open>compute\_heuristic\<close>

lemma foldl_max_ge: "(m :: int) \<le> foldl (\<lambda>max_h x. max max_h (f x)) m xs"
proof (induction xs arbitrary: m)
  case Nil
  then show ?case by simp
next
  case (Cons x xs)
  have "m \<le> max m (f x)" by simp
  also have "\<dots> \<le> foldl (\<lambda>max_h x. max max_h (f x)) (max m (f x)) xs" by (rule Cons.IH)
  finally show ?case by simp
qed

lemma compute_max_h_nonneg: "0 \<le> compute_max_h_with_statistics ext cps ids"
  unfolding compute_max_h_with_statistics_def by (rule foldl_max_ge)

lemma compute_cost_partitioning_perimstar:
  assumes "saturator self = PERIMSTAR"
  shows "compute_cost_partitioning ext self order ids max_h =
     (let perim = compute_perim_scp ext (abstractions self) order (costs self) ids;
          h = cph_compute_heuristic ext (fst perim) ids
      in (if h > max_h
          then cph_add ext (fst perim)
                 (compute_saturated_cost_partitioning ext (abstractions self) order (snd perim) ids)
          else fst perim,
          h,
          self\<lparr>calls := calls self @ [PerimSCP] @ (if h > max_h then [FullSCP] else []),
                num_scps_computed := num_scps_computed self + 1\<rparr>))"
  using assms by (auto simp: compute_cost_partitioning_def Let_def split: prod.splits)

lemma compute_cost_partitioning_other:
  assumes "saturator self \<noteq> PERIMSTAR"
  shows "compute_cost_partitioning ext self order ids max_h =
     (cp_function ext (abstractions self) order (costs self) ids,
      cph_compute_heuristic ext (cp_function ext (abstractions self) order (costs self) ids) ids,
      self\<lparr>calls := calls self @ [CPFunction],
            num_scps_computed := num_scps_computed self + 1\<rparr>)"
  using assms by (simp add: compute_cost_partitioning_def Let_def)

lemma compute_cost_partitioning_frame:
  assumes "compute_cost_partitioning ext self order ids max_h = (cp, h, self')"
  shows "use_evaluated_state_as_sample self' = use_evaluated_state_as_sample self"
    and "size_kb self' = size_kb self"
    and "cp_heuristics self' = cp_heuristics self"
    and "num_evaluated_states self' = num_evaluated_states self"
    and "improve_heuristic self' = improve_heuristic self"
    and "num_scps_computed self' = num_scps_computed self + 1"
proof -
  have "use_evaluated_state_as_sample self' = use_evaluated_state_as_sample self \<and>
    size_kb self' = size_kb self \<and> cp_heuristics self' = cp_heuristics self \<and>
    num_evaluated_states self' = num_evaluated_states self \<and>
    improve_heuristic self' = improve_heuristic self \<and>
    num_scps_computed self' = num_scps_computed self + 1"
  proof (cases "saturator self = PERIMSTAR")
    case True
    from assms[unfolded compute_cost_partitioning_perimstar[OF True]] show ?thesis
      by (auto simp: Let_def)
  next
    case False
    from assms[unfolded compute_cost_partitioning_other[OF False]] show ?thesis
      by auto
  qed
  then show "use_evaluated_state_as_sample self' = use_evaluated_state_as_sample self"
    and "size_kb self' = size_kb self"
    and "cp_heuristics self' = cp_heuristics self"
    and "num_evaluated_states self' = num_evaluated_states self"
    and "improve_heuristic self' = improve_heuristic self"
    and "num_scps_computed self' = num_scps_computed self + 1"
    by simp_all
qed

lemma improve_with_scp_result:
  assumes "compute_cost_partitioning ext (self\<lparr>calls := calls self @ [ComputeOrder]\<rparr>)
             (compute_order_for_state ext ids (num_evaluated_states self = 0)) ids max_h
           = (cp, h, self2)"
  shows "improve_with_scp ext self ids max_h =
           (max max_h h,
            if use_evaluated_state_as_sample self \<and> h > max_h
            then self2\<lparr>size_kb := size_kb self + estimate_size_in_kb ext cp,
                       cp_heuristics := cp_heuristics self @ [cp]\<rparr>
            else self2)"
  using assms compute_cost_partitioning_frame(1-3)[OF assms]
  by (simp add: improve_with_scp_def Let_def)


lemma should_compute_scp_calls [simp]:
  "should_compute_scp (self\<lparr>calls := c\<rparr>) gs = should_compute_scp self gs"
  by (simp add: should_compute_scp_def)

lemma compute_heuristic_triggered:
  assumes "abstract_state_ids_for ext self gs = Inr ids" "\<not> is_unsolvable ext ids"
    "improve_heuristic self" "elapsed < max_time self" "size_kb self < max_size_kb self"
    "should_compute_scp self gs = Inr True"
    "improve_with_scp ext (self\<lparr>calls := calls self @ [EvaluateStoredCPHs]\<rparr>) ids
       (compute_max_h_with_statistics ext (cp_heuristics self) ids) = (max_h1, self3)"
  shows "compute_heuristic ext self gs elapsed =
           Inr (max_h1, self3\<lparr>num_evaluated_states := num_evaluated_states self3 + 1\<rparr>)"
  using assms by (simp add: compute_heuristic_def bindE_def Let_def)

lemma stop_improvement_result:
  assumes "stop_improvement ext self = Inr self'"
  shows "\<not> improve_heuristic self'" "abstractions self' = []" "fact_id_offsets self' = []"
    "seen_facts self' = []" "seen_fact_pairs self' = []"
    "cp_heuristics self' = cp_heuristics self"
    "num_scps_computed self' = num_scps_computed self"
    "num_evaluated_states self' = num_evaluated_states self"
    "calls self' = calls self"
    "extract_useful_abstraction_functions ext (cp_heuristics self) (abstractions self)
       (abstraction_functions self) = Inr (abstraction_functions self')"
  using assms by (auto simp: stop_improvement_def bindE_Inr_iff)

lemma improve_with_scp_frame:
  assumes "improve_with_scp ext self ids max_h = (max_h1, self')"
  shows "max_h \<le> max_h1" "num_evaluated_states self' = num_evaluated_states self"
    "improve_heuristic self' = improve_heuristic self"
proof -
  obtain cp h self2 where c: "compute_cost_partitioning ext (self\<lparr>calls := calls self @ [ComputeOrder]\<rparr>)
             (compute_order_for_state ext ids (num_evaluated_states self = 0)) ids max_h
           = (cp, h, self2)" by (metis prod_cases3)
  note frame = compute_cost_partitioning_frame[OF c]
  from assms[unfolded improve_with_scp_result[OF c]]
  have m: "max_h1 = max max_h h" and
    s: "self' = (if use_evaluated_state_as_sample self \<and> h > max_h
            then self2\<lparr>size_kb := size_kb self + estimate_size_in_kb ext cp,
                       cp_heuristics := cp_heuristics self @ [cp]\<rparr>
            else self2)" by simp_all
  from m show "max_h \<le> max_h1" by simp
  from s frame(4) show "num_evaluated_states self' = num_evaluated_states self" by simp
  from s frame(5) show "improve_heuristic self' = improve_heuristic self" by simp
qed

lemma compute_heuristic_alive:
  assumes "compute_heuristic ext self gs elapsed = Inr (r, self')"
    "abstract_state_ids_for ext self gs = Inr ids" "\<not> is_unsolvable ext ids"
  shows "\<exists>self2 self3.
    (if improve_heuristic self \<and> (max_time self \<le> elapsed \<or> max_size_kb self \<le> size_kb self)
     then stop_improvement ext (self\<lparr>calls := calls self @ [EvaluateStoredCPHs]\<rparr>)
     else Inr (self\<lparr>calls := calls self @ [EvaluateStoredCPHs]\<rparr>)) = Inr self2 \<and>
    (if improve_heuristic self2 \<and> should_compute_scp self2 gs = Inr True
     then improve_with_scp ext self2 ids
            (compute_max_h_with_statistics ext (cp_heuristics self) ids)
     else (compute_max_h_with_statistics ext (cp_heuristics self) ids, self2)) = (r, self3) \<and>
    self' = self3\<lparr>num_evaluated_states := num_evaluated_states self3 + 1\<rparr>"
proof -
  let ?max_h = "compute_max_h_with_statistics ext (cp_heuristics self) ids"
  let ?self1 = "self\<lparr>calls := calls self @ [EvaluateStoredCPHs]\<rparr>"
  let ?stop = "if improve_heuristic self \<and>
                  (max_time self \<le> elapsed \<or> max_size_kb self \<le> size_kb self)
               then stop_improvement ext ?self1 else Inr ?self1"
  from assms have "bindE ?stop (\<lambda>self2.
         bindE (if improve_heuristic self2 then should_compute_scp self2 gs
                else Inr False) (\<lambda>compute_scp.
           let (max_h1, self3) =
                 (if improve_heuristic self2 \<and> compute_scp
                  then improve_with_scp ext self2 ids ?max_h
                  else (?max_h, self2))
           in Inr (max_h1,
                   self3\<lparr>num_evaluated_states := num_evaluated_states self3 + 1\<rparr>)))
       = Inr (r, self')"
    by (simp add: compute_heuristic_def bindE_Inr Let_def)
  then obtain self2 compute_scp where
    s2: "?stop = Inr self2" and
    sc: "(if improve_heuristic self2 then should_compute_scp self2 gs else Inr False)
           = Inr compute_scp" and
    fin: "(let (max_h1, self3) =
                 (if improve_heuristic self2 \<and> compute_scp
                  then improve_with_scp ext self2 ids ?max_h
                  else (?max_h, self2))
           in Inr (max_h1,
                   self3\<lparr>num_evaluated_states := num_evaluated_states self3 + 1\<rparr>))
       = (Inr (r, self') :: error + int \<times> ('a, 'b, 'c) Online)"
    unfolding bindE_Inr_iff by blast
  obtain m1 self3 where
    p: "(if improve_heuristic self2 \<and> compute_scp
         then improve_with_scp ext self2 ids ?max_h else (?max_h, self2)) = (m1, self3)"
    by (metis surj_pair)
  from fin p have r: "r = m1" "self' = self3\<lparr>num_evaluated_states := num_evaluated_states self3 + 1\<rparr>"
    by simp_all
  from sc have "(improve_heuristic self2 \<and> compute_scp) =
                (improve_heuristic self2 \<and> should_compute_scp self2 gs = Inr True)"
    by (cases "improve_heuristic self2") auto
  with p r(1) have "(if improve_heuristic self2 \<and> should_compute_scp self2 gs = Inr True
     then improve_with_scp ext self2 ids ?max_h else (?max_h, self2)) = (r, self3)" by simp
  with s2 r(2) show ?thesis by blast
qed

lemma compute_heuristic_alive_counters:
  assumes "compute_heuristic ext self gs elapsed = Inr (r, self')"
    "abstract_state_ids_for ext self gs = Inr ids" "\<not> is_unsolvable ext ids"
  shows "0 \<le> r" "num_evaluated_states self' = num_evaluated_states self + 1"
proof -
  let ?max_h = "compute_max_h_with_statistics ext (cp_heuristics self) ids"
  from compute_heuristic_alive[OF assms] obtain self2 self3 where
    s2: "(if improve_heuristic self \<and> (max_time self \<le> elapsed \<or> max_size_kb self \<le> size_kb self)
     then stop_improvement ext (self\<lparr>calls := calls self @ [EvaluateStoredCPHs]\<rparr>)
     else Inr (self\<lparr>calls := calls self @ [EvaluateStoredCPHs]\<rparr>)) = Inr self2" and
    s3: "(if improve_heuristic self2 \<and> should_compute_scp self2 gs = Inr True
     then improve_with_scp ext self2 ids ?max_h else (?max_h, self2)) = (r, self3)" and
    s': "self' = self3\<lparr>num_evaluated_states := num_evaluated_states self3 + 1\<rparr>" by blast
  have n2: "num_evaluated_states self2 = num_evaluated_states self"
  proof (cases "improve_heuristic self \<and>
                (max_time self \<le> elapsed \<or> max_size_kb self \<le> size_kb self)")
    case True
    with s2 have "stop_improvement ext (self\<lparr>calls := calls self @ [EvaluateStoredCPHs]\<rparr>)
                    = Inr self2" by simp
    from stop_improvement_result(8)[OF this] show ?thesis by simp
  next
    case False
    with s2 show ?thesis by auto
  qed
  have "?max_h \<le> r \<and> num_evaluated_states self3 = num_evaluated_states self2"
  proof (cases "improve_heuristic self2 \<and> should_compute_scp self2 gs = Inr True")
    case True
    with s3 have "improve_with_scp ext self2 ids ?max_h = (r, self3)" by simp
    from improve_with_scp_frame(1,2)[OF this] show ?thesis by simp
  next
    case False
    with s3 show ?thesis by auto
  qed
  with n2 s' compute_max_h_nonneg[of ext "cp_heuristics self" ids]
  show "0 \<le> r" "num_evaluated_states self' = num_evaluated_states self + 1" by simp_all
qed

lemmas example_online_simps =
  example_env_def example_online_def abstract_state_ids_for_def should_compute_scp_def
  compute_max_h_with_statistics_def

lemma example_ids_alive:
  "abstract_state_ids_for example_env (example_online\<lparr>cp_heuristics := cps\<rparr>) [0, 0] = Inr [0, 0]"
  "\<not> is_unsolvable example_env [0, 0]"
  "improve_heuristic (example_online\<lparr>cp_heuristics := cps\<rparr>)"
  "0 < max_time (example_online\<lparr>cp_heuristics := cps\<rparr>)"
  "size_kb (example_online\<lparr>cp_heuristics := cps\<rparr>)
     < max_size_kb (example_online\<lparr>cp_heuristics := cps\<rparr>)"
  "should_compute_scp (example_online\<lparr>cp_heuristics := cps\<rparr>) [0, 0] = Inr True"
  by (simp_all add: example_online_simps)

lemma example_dead_end:
  "abstract_state_ids_for example_env example_online [1, 1] = Inr [1, 1]"
  "is_unsolvable example_env [1, 1]"
  by (simp_all add: example_online_simps)

text \<open>
  C2. For every query state whose abstract state ids the unsolvability heuristic marks
  unsolvable, \<^verbatim>\<open>compute_heuristic\<close> returns \<open>DEAD_END\<close> and leaves the heuristic object
  exactly as it was: nothing is added to the log of calls, so no stored cost-partitioning
  heuristic has been evaluated and no order or cost partitioning computed, and the stored
  heuristics and all counters are those before the call.
\<close>

theorem dead_end_before_any_evaluation:
  assumes "abstract_state_ids_for ext self gs = Inr ids" "is_unsolvable ext ids"
  shows "compute_heuristic ext self gs elapsed = Inr (DEAD_END, self)"
  using assms by (simp add: compute_heuristic_def bindE_def)

theorem dead_end_before_any_evaluation_witness:
  "compute_heuristic example_env example_online [1, 1] 0 = Inr (DEAD_END, example_online)"
  using dead_end_before_any_evaluation[OF example_dead_end] .

text \<open>
  C3, as amended. In a query of the improvement phase that is no dead end, does not end
  the phase and for which \<^verbatim>\<open>should_compute_scp\<close> holds, let \<open>h\<close> be the value, at the
  abstract state ids of the state, of the cost partitioning of the first saturation: the
  one \<^verbatim>\<open>cp_function\<close> computes, and under \<^verbatim>\<open>PERIMSTAR\<close> the perimeter cost partitioning
  before the full saturation is added to it. The resulting cost partitioning \<open>cp\<close> is
  appended to the stored heuristics if and only if \<^verbatim>\<open>use_evaluated_state_as_sample\<close> is
  set and \<open>h\<close> exceeds the maximum \<open>max_h\<close> over the heuristics stored before, and in both
  cases the query returns \<open>max max_h h\<close>.
\<close>

theorem fresh_scp_stored_iff_diverse:
  assumes "abstract_state_ids_for ext self gs = Inr ids" "\<not> is_unsolvable ext ids"
    "improve_heuristic self" "elapsed < max_time self" "size_kb self < max_size_kb self"
    "should_compute_scp self gs = Inr True"
    "compute_cost_partitioning ext
       (self\<lparr>calls := calls self @ [EvaluateStoredCPHs, ComputeOrder]\<rparr>)
       (compute_order_for_state ext ids (num_evaluated_states self = 0)) ids
       (compute_max_h_with_statistics ext (cp_heuristics self) ids) = (cp, h, self2)"
  shows "\<exists>self'. compute_heuristic ext self gs elapsed =
           Inr (max (compute_max_h_with_statistics ext (cp_heuristics self) ids) h, self') \<and>
         cp_heuristics self' =
           (if use_evaluated_state_as_sample self \<and>
               h > compute_max_h_with_statistics ext (cp_heuristics self) ids
            then cp_heuristics self @ [cp] else cp_heuristics self) \<and>
         h = cph_compute_heuristic ext
               (if saturator self = PERIMSTAR
                then fst (compute_perim_scp ext (abstractions self)
                            (compute_order_for_state ext ids (num_evaluated_states self = 0))
                            (costs self) ids)
                else cp_function ext (abstractions self)
                       (compute_order_for_state ext ids (num_evaluated_states self = 0))
                       (costs self) ids) ids"
proof -
  let ?max_h = "compute_max_h_with_statistics ext (cp_heuristics self) ids"
  let ?self1 = "self\<lparr>calls := calls self @ [EvaluateStoredCPHs]\<rparr>"
  from assms(7) have cp: "compute_cost_partitioning ext
       (?self1\<lparr>calls := calls ?self1 @ [ComputeOrder]\<rparr>)
       (compute_order_for_state ext ids (num_evaluated_states ?self1 = 0)) ids ?max_h
       = (cp, h, self2)" by simp
  note frame = compute_cost_partitioning_frame[OF assms(7)]
  let ?self3 = "if use_evaluated_state_as_sample ?self1 \<and> h > ?max_h
            then self2\<lparr>size_kb := size_kb ?self1 + estimate_size_in_kb ext cp,
                       cp_heuristics := cp_heuristics ?self1 @ [cp]\<rparr>
            else self2"
  from improve_with_scp_result[OF cp]
  have "improve_with_scp ext ?self1 ids ?max_h = (max ?max_h h, ?self3)" .
  from compute_heuristic_triggered[OF assms(1-6) this]
  have "compute_heuristic ext self gs elapsed =
          Inr (max ?max_h h, ?self3\<lparr>num_evaluated_states := num_evaluated_states ?self3 + 1\<rparr>)" .
  moreover have "cp_heuristics (?self3\<lparr>num_evaluated_states := num_evaluated_states ?self3 + 1\<rparr>)
     = (if use_evaluated_state_as_sample self \<and> h > ?max_h
        then cp_heuristics self @ [cp] else cp_heuristics self)"
    using frame(3) by simp
  moreover have "h = cph_compute_heuristic ext
               (if saturator self = PERIMSTAR
                then fst (compute_perim_scp ext (abstractions self)
                            (compute_order_for_state ext ids (num_evaluated_states self = 0))
                            (costs self) ids)
                else cp_function ext (abstractions self)
                       (compute_order_for_state ext ids (num_evaluated_states self = 0))
                       (costs self) ids) ids"
  proof (cases "saturator self = PERIMSTAR")
    case True
    then have "saturator (self\<lparr>calls := calls self @ [EvaluateStoredCPHs, ComputeOrder]\<rparr>)
                 = PERIMSTAR" by simp
    from assms(7)[unfolded compute_cost_partitioning_perimstar[OF this]] True
    show ?thesis by (auto simp: Let_def)
  next
    case False
    then have "saturator (self\<lparr>calls := calls self @ [EvaluateStoredCPHs, ComputeOrder]\<rparr>)
                 \<noteq> PERIMSTAR" by simp
    from assms(7)[unfolded compute_cost_partitioning_other[OF this]] False
    show ?thesis by auto
  qed
  ultimately show ?thesis by blast
qed


theorem fresh_scp_stored_iff_diverse_witness:
  "\<exists>self'. compute_heuristic example_env (example_online\<lparr>cp_heuristics := [[1, 0]]\<rparr>) [0, 0] 0
             = Inr (2, self') \<and>
           cp_heuristics self' = [[1, 0], [3, 0]]"
proof -
  let ?self = "example_online\<lparr>cp_heuristics := [[1, 0]]\<rparr>"
  let ?self2 = "?self\<lparr>calls := [EvaluateStoredCPHs, ComputeOrder, PerimSCP, FullSCP],
                       num_scps_computed := 1\<rparr>"
  have c: "compute_cost_partitioning example_env
       (?self\<lparr>calls := calls ?self @ [EvaluateStoredCPHs, ComputeOrder]\<rparr>)
       (compute_order_for_state example_env [0, 0] (num_evaluated_states ?self = 0)) [0, 0]
       (compute_max_h_with_statistics example_env (cp_heuristics ?self) [0, 0])
     = ([3, 0], 2, ?self2)"
    by (simp add: compute_cost_partitioning_def example_online_simps)
  from fresh_scp_stored_iff_diverse[OF example_ids_alive c]
  show ?thesis by (simp add: example_online_simps)
qed

text \<open>
  C3, as stated, fails: the value \<open>h\<close> is not that of the resulting cost partitioning.
  Under \<^verbatim>\<open>PERIMSTAR\<close>, with \<open>max_h = 1\<close>, a perimeter cost partitioning of value 2 and a
  full saturation that adds 1, the stored heuristic \<open>[3, 0]\<close> has the value 3 at the
  evaluated state, and the query returns 2, which is not \<open>max 1 3\<close>.
\<close>

theorem fresh_scp_value_counterexample:
  "\<exists>self'. compute_heuristic example_env example_online [0, 0] 0 = Inr (2, self') \<and>
           cp_heuristics self' = [[1, 0], [3, 0]] \<and>
           saturator example_online = PERIMSTAR \<and>
           compute_max_h_with_statistics example_env (cp_heuristics example_online) [0, 0] = 1 \<and>
           cph_compute_heuristic example_env [3, 0] [0, 0] = 3 \<and>
           (2 :: int) \<noteq> max 1 3"
proof -
  let ?self1 = "example_online\<lparr>calls := calls example_online @ [EvaluateStoredCPHs]\<rparr>"
  let ?self2 = "example_online\<lparr>calls := [EvaluateStoredCPHs, ComputeOrder, PerimSCP, FullSCP],
                       num_scps_computed := 1\<rparr>"
  let ?self3 = "?self2\<lparr>size_kb := 2, cp_heuristics := [[1, 0], [3, 0]]\<rparr>"
  have ids: "abstract_state_ids_for example_env example_online [0, 0] = Inr [0, 0]"
    "\<not> is_unsolvable example_env [0, 0]" "improve_heuristic example_online"
    "0 < max_time example_online" "size_kb example_online < max_size_kb example_online"
    "should_compute_scp example_online [0, 0] = Inr True"
    by (simp_all add: example_online_simps)
  have m: "compute_max_h_with_statistics example_env (cp_heuristics example_online) [0, 0] = 1"
    by (simp add: example_online_simps)
  have c: "compute_cost_partitioning example_env
       (?self1\<lparr>calls := calls ?self1 @ [ComputeOrder]\<rparr>)
       (compute_order_for_state example_env [0, 0] (num_evaluated_states ?self1 = 0)) [0, 0] 1
     = ([3, 0], 2, ?self2)"
    by (simp add: compute_cost_partitioning_def example_online_simps)
  from improve_with_scp_result[OF c]
  have "improve_with_scp example_env ?self1 [0, 0] 1 = (2, ?self3)"
    by (simp add: example_online_def example_env_def)
  with m have "improve_with_scp example_env ?self1 [0, 0]
       (compute_max_h_with_statistics example_env (cp_heuristics example_online) [0, 0])
     = (2, ?self3)" by simp
  from compute_heuristic_triggered[OF ids this]
  have "compute_heuristic example_env example_online [0, 0] 0 =
          Inr (2, ?self3\<lparr>num_evaluated_states := num_evaluated_states ?self3 + 1\<rparr>)" .
  moreover have "cp_heuristics (?self3\<lparr>num_evaluated_states := num_evaluated_states ?self3 + 1\<rparr>)
     = [[1, 0], [3, 0]]" by simp
  moreover have "saturator example_online = PERIMSTAR" by (simp add: example_online_def)
  moreover have "cph_compute_heuristic example_env [3, 0] [0, 0] = 3"
    by (simp add: example_env_def)
  moreover have "(2 :: int) \<noteq> max 1 3" by simp
  ultimately show ?thesis using m by blast
qed

text \<open>
  C4. With the saturator \<^verbatim>\<open>PERIMSTAR\<close>, a query that triggers the computation of a cost
  partitioning increases \<^verbatim>\<open>num_scps_computed\<close> by exactly one. With \<open>h\<close> the value of
  the perimeter cost partitioning \<open>cp1\<close> at the evaluated state: if \<open>h > max_h\<close> the full
  saturation on the remaining costs is computed and added to \<open>cp1\<close>, and otherwise it is
  not computed and the cost partitioning is \<open>cp1\<close> itself.
\<close>

theorem perimstar_second_pass_iff_improves:
  assumes "abstract_state_ids_for ext self gs = Inr ids" "\<not> is_unsolvable ext ids"
    "improve_heuristic self" "elapsed < max_time self" "size_kb self < max_size_kb self"
    "should_compute_scp self gs = Inr True"
    "saturator self = PERIMSTAR"
    "order = compute_order_for_state ext ids (num_evaluated_states self = 0)"
    "compute_perim_scp ext (abstractions self) order (costs self) ids = (cp1, remaining)"
    "h = cph_compute_heuristic ext cp1 ids"
    "max_h = compute_max_h_with_statistics ext (cp_heuristics self) ids"
  shows "\<exists>self'. compute_heuristic ext self gs elapsed = Inr (max max_h h, self') \<and>
           num_scps_computed self' = num_scps_computed self + 1 \<and>
           calls self' = calls self @ [EvaluateStoredCPHs, ComputeOrder, PerimSCP] @
                           (if h > max_h then [FullSCP] else []) \<and>
           fst (compute_cost_partitioning ext
                  (self\<lparr>calls := calls self @ [EvaluateStoredCPHs, ComputeOrder]\<rparr>)
                  order ids max_h) =
             (if h > max_h
              then cph_add ext cp1
                     (compute_saturated_cost_partitioning ext (abstractions self) order
                        remaining ids)
              else cp1)"
proof -
  let ?self1 = "self\<lparr>calls := calls self @ [EvaluateStoredCPHs]\<rparr>"
  let ?self1o = "self\<lparr>calls := calls self @ [EvaluateStoredCPHs, ComputeOrder]\<rparr>"
  let ?cp = "if h > max_h
              then cph_add ext cp1
                     (compute_saturated_cost_partitioning ext (abstractions self) order
                        remaining ids)
              else cp1"
  let ?self2 = "?self1o\<lparr>calls := calls ?self1o @ [PerimSCP] @ (if h > max_h then [FullSCP] else []),
                num_scps_computed := num_scps_computed ?self1o + 1\<rparr>"
  have sat: "saturator ?self1o = PERIMSTAR" using assms(7) by simp
  have ccp: "compute_cost_partitioning ext ?self1o order ids max_h = (?cp, h, ?self2)"
    unfolding compute_cost_partitioning_perimstar[OF sat] using assms(9,10)
    by (simp add: Let_def)
  then have ccp': "compute_cost_partitioning ext (?self1\<lparr>calls := calls ?self1 @ [ComputeOrder]\<rparr>)
             (compute_order_for_state ext ids (num_evaluated_states ?self1 = 0)) ids
             (compute_max_h_with_statistics ext (cp_heuristics self) ids) = (?cp, h, ?self2)"
    using assms(8,11) by simp
  let ?self3 = "if use_evaluated_state_as_sample ?self1 \<and> h > max_h
            then ?self2\<lparr>size_kb := size_kb ?self1 + estimate_size_in_kb ext ?cp,
                       cp_heuristics := cp_heuristics ?self1 @ [?cp]\<rparr>
            else ?self2"
  from improve_with_scp_result[OF ccp'] assms(11)
  have "improve_with_scp ext ?self1 ids
          (compute_max_h_with_statistics ext (cp_heuristics self) ids) = (max max_h h, ?self3)"
    by simp
  from compute_heuristic_triggered[OF assms(1-6) this]
  have ch: "compute_heuristic ext self gs elapsed =
          Inr (max max_h h, ?self3\<lparr>num_evaluated_states := num_evaluated_states ?self3 + 1\<rparr>)" .
  have n: "num_scps_computed (?self3\<lparr>num_evaluated_states := num_evaluated_states ?self3 + 1\<rparr>)
           = num_scps_computed self + 1" by simp
  have c: "calls (?self3\<lparr>num_evaluated_states := num_evaluated_states ?self3 + 1\<rparr>)
           = calls self @ [EvaluateStoredCPHs, ComputeOrder, PerimSCP] @
                           (if h > max_h then [FullSCP] else [])" by simp
  have f: "fst (compute_cost_partitioning ext ?self1o order ids max_h) = ?cp"
    unfolding ccp by simp
  show ?thesis
  proof (intro exI conjI)
    show "compute_heuristic ext self gs elapsed =
          Inr (max max_h h, ?self3\<lparr>num_evaluated_states := num_evaluated_states ?self3 + 1\<rparr>)"
      by (rule ch)
  qed (rule n c f)+
qed

theorem perimstar_second_pass_iff_improves_witness:
  "\<exists>self'. compute_heuristic example_env (example_online\<lparr>cp_heuristics := [[5, 0]]\<rparr>) [0, 0] 0
             = Inr (5, self') \<and>
           num_scps_computed self' = 1 \<and>
           calls self' = [EvaluateStoredCPHs, ComputeOrder, PerimSCP]"
proof -
  let ?self = "example_online\<lparr>cp_heuristics := [[5, 0]]\<rparr>"
  have s: "saturator ?self = PERIMSTAR" by (simp add: example_online_def)
  have p: "compute_perim_scp example_env (abstractions ?self) [0, 1] (costs ?self) [0, 0]
             = ([2, 0], [1])"
    by (simp add: example_online_simps)
  have o: "[0, 1] = compute_order_for_state example_env [0, 0] (num_evaluated_states ?self = 0)"
    by (simp add: example_online_simps)
  have h: "2 = cph_compute_heuristic example_env [2, 0] [0, 0]"
    by (simp add: example_online_simps)
  have m: "5 = compute_max_h_with_statistics example_env (cp_heuristics ?self) [0, 0]"
    by (simp add: example_online_simps)
  from perimstar_second_pass_iff_improves[OF example_ids_alive s o p h m]
  show ?thesis by (auto simp: example_online_def)
qed

text \<open>
  C9. Whenever \<^verbatim>\<open>compute_heuristic\<close> returns \<open>DEAD_END\<close>, the object is unchanged: the
  counter \<^verbatim>\<open>num_evaluated_states\<close> is not incremented, no cost partitioning is computed
  or stored, and \<^verbatim>\<open>should_compute_scp\<close>, hence the every-\<open>k\<close> trigger of a positive
  interval, answers as before. Every other return increments \<^verbatim>\<open>num_evaluated_states\<close>
  by one, so the counter counts the evaluations that are no dead ends.
\<close>

theorem dead_end_does_not_count:
  assumes "compute_heuristic ext self gs elapsed = Inr (r, self')"
  shows "(r = DEAD_END \<longrightarrow>
            self' = self \<and> num_evaluated_states self' = num_evaluated_states self \<and>
            num_scps_computed self' = num_scps_computed self \<and>
            cp_heuristics self' = cp_heuristics self \<and> calls self' = calls self \<and>
            (\<forall>s. should_compute_scp self' s = should_compute_scp self s)) \<and>
         (r \<noteq> DEAD_END \<longrightarrow> num_evaluated_states self' = num_evaluated_states self + 1)"
proof -
  from assms obtain ids where ids: "abstract_state_ids_for ext self gs = Inr ids"
    by (auto simp: compute_heuristic_def bindE_Inr_iff)
  show ?thesis
  proof (cases "is_unsolvable ext ids")
    case True
    with assms ids have "r = DEAD_END" "self' = self"
      by (simp_all add: compute_heuristic_def bindE_def)
    then show ?thesis by simp
  next
    case False
    from compute_heuristic_alive_counters[OF assms ids False]
    show ?thesis by (simp add: DEAD_END_def)
  qed
qed

theorem dead_end_does_not_count_witness:
  "(\<exists>self'. compute_heuristic example_env example_online [1, 1] 0 = Inr (DEAD_END, self') \<and>
            num_evaluated_states self' = 0 \<and> num_scps_computed self' = 0 \<and>
            cp_heuristics self' = [[1, 0]] \<and> calls self' = []) \<and>
   (\<exists>self'. compute_heuristic example_env example_online [1, 0] 0 = Inr (0, self') \<and>
            num_evaluated_states self' = 1)"
proof -
  have d: "compute_heuristic example_env example_online [1, 1] 0 = Inr (DEAD_END, example_online)"
    by (simp add: compute_heuristic_def bindE_def example_online_simps)
  have ids: "abstract_state_ids_for example_env example_online [1, 0] = Inr [1, 0]"
    "\<not> is_unsolvable example_env [1, 0]" "improve_heuristic example_online"
    "0 < max_time example_online" "size_kb example_online < max_size_kb example_online"
    "should_compute_scp example_online [1, 0] = Inr True"
    by (simp_all add: example_online_simps)
  obtain m self3 where i: "improve_with_scp example_env
       (example_online\<lparr>calls := calls example_online @ [EvaluateStoredCPHs]\<rparr>) [1, 0]
       (compute_max_h_with_statistics example_env (cp_heuristics example_online) [1, 0])
       = (m, self3)" by (metis surj_pair)
  then have m: "m = 0"
    by (simp add: improve_with_scp_def compute_cost_partitioning_def Let_def
        example_online_simps split: prod.splits)
  from compute_heuristic_triggered[OF ids i] m
  have a: "compute_heuristic example_env example_online [1, 0] 0 =
             Inr (0, self3\<lparr>num_evaluated_states := num_evaluated_states self3 + 1\<rparr>)" by simp
  have ne: "(0 :: int) \<noteq> DEAD_END" by (simp add: DEAD_END_def)
  from dead_end_does_not_count[OF a] ne
  have "num_evaluated_states (self3\<lparr>num_evaluated_states := num_evaluated_states self3 + 1\<rparr>)
          = num_evaluated_states example_online + 1" by blast
  then have "num_evaluated_states (self3\<lparr>num_evaluated_states := num_evaluated_states self3 + 1\<rparr>)
          = 1" by (simp add: example_online_def)
  with a have alive: "\<exists>self'. compute_heuristic example_env example_online [1, 0] 0 = Inr (0, self') \<and>
            num_evaluated_states self' = 1" by blast
  from dead_end_does_not_count[OF d] d have "\<exists>self'.
      compute_heuristic example_env example_online [1, 1] 0 = Inr (DEAD_END, self') \<and>
      num_evaluated_states self' = 0 \<and> num_scps_computed self' = 0 \<and>
      cp_heuristics self' = [[1, 0]] \<and> calls self' = []"
    by (simp add: example_online_def)
  with alive show ?thesis by blast
qed

subsection \<open>The end of the improvement phase\<close>

lemma mark_useful_abstractions_result:
  "mark_useful_abstractions ids useful = Inr useful' \<Longrightarrow>
   length useful' = length useful \<and>
   (\<forall>i < length useful. useful' ! i = (useful ! i \<or> i \<in> set ids))"
proof (induction ids arbitrary: useful)
  case Nil
  then show ?case by simp
next
  case (Cons a ids)
  from Cons.prems have a: "a < length useful"
    and rec: "mark_useful_abstractions ids (useful[a := True]) = Inr useful'"
    by (simp_all split: if_splits)
  from Cons.IH[OF rec] have l: "length useful' = length useful"
    and v: "\<forall>i < length useful. useful' ! i = ((useful[a := True]) ! i \<or> i \<in> set ids)"
    by simp_all
  have "useful' ! i = (useful ! i \<or> i \<in> set (a # ids))" if "i < length useful" for i
    using v that by (cases "i = a") simp_all
  with l show ?case by blast
qed

lemma mark_all_useful_result:
  "mark_all_useful flagged cps useful = Inr useful' \<Longrightarrow>
   length useful' = length useful \<and>
   (\<forall>i < length useful. useful' ! i = (useful ! i \<or> i \<in> (\<Union>cp \<in> set cps. set (flagged cp))))"
proof (induction cps arbitrary: useful)
  case Nil
  then show ?case by simp
next
  case (Cons cp cps)
  from Cons.prems obtain useful1 where
    m: "mark_useful_abstractions (flagged cp) useful = Inr useful1" and
    rec: "mark_all_useful flagged cps useful1 = Inr useful'"
    by (auto simp: bindE_Inr_iff)
  from mark_useful_abstractions_result[OF m] have l1: "length useful1 = length useful"
    and v1: "\<forall>i < length useful. useful1 ! i = (useful ! i \<or> i \<in> set (flagged cp))"
    by simp_all
  from Cons.IH[OF rec] l1 have l: "length useful' = length useful"
    and v: "\<forall>i < length useful.
              useful' ! i = (useful1 ! i \<or> i \<in> (\<Union>cp \<in> set cps. set (flagged cp)))"
    by simp_all
  have "useful' ! i = (useful ! i \<or> i \<in> (\<Union>c \<in> set (cp # cps). set (flagged c)))"
    if "i < length useful" for i
    using v v1 that by auto
  with l show ?case by blast
qed

lemma extract_useful_abstraction_functions_result:
  assumes "extract_useful_abstraction_functions ext cps abss fns = Inr fns'"
  shows "fns' = map (\<lambda>i. if i \<in> set (unsolvability_useful ext) \<union>
                               (\<Union>cp \<in> set cps. set (cph_useful ext cp))
                          then Some (extract_abstraction_function ext (abss ! i))
                          else None) [0 ..< length abss]"
proof -
  from assms obtain useful0 useful where
    m0: "mark_useful_abstractions (unsolvability_useful ext) (replicate (length abss) False)
           = Inr useful0" and
    m: "mark_all_useful (cph_useful ext) cps useful0 = Inr useful" and
    res: "(let fns1 = fns @ map (\<lambda>i. if useful ! i
                                   then Some (extract_abstraction_function ext (abss ! i))
                                   else None) [0 ..< length abss]
           in if length fns1 = length abss then Inr fns1 else Inl AssertionViolation)
          = Inr fns'"
    unfolding extract_useful_abstraction_functions_def bindE_Inr_iff by blast
  from res have e: "fns = []"
    and f: "fns' = map (\<lambda>i. if useful ! i
                              then Some (extract_abstraction_function ext (abss ! i))
                              else None) [0 ..< length abss]"
    by (auto simp: Let_def split: if_splits)
  from mark_useful_abstractions_result[OF m0] have l0: "length useful0 = length abss"
    and v0: "\<forall>i < length abss. useful0 ! i = (i \<in> set (unsolvability_useful ext))"
    by simp_all
  from mark_all_useful_result[OF m] l0 v0
  have "\<forall>i < length abss. useful ! i =
          (i \<in> set (unsolvability_useful ext) \<union> (\<Union>cp \<in> set cps. set (cph_useful ext cp)))"
    by simp
  with f show ?thesis by simp
qed

lemma compute_heuristic_after_stop:
  assumes "\<not> improve_heuristic self" "abstractions self = []" "abstraction_functions self \<noteq> []"
  shows "\<exists>r self'. compute_heuristic ext self gs elapsed = Inr (r, self') \<and>
           \<not> improve_heuristic self' \<and> abstractions self' = [] \<and>
           abstraction_functions self' \<noteq> [] \<and>
           cp_heuristics self' = cp_heuristics self \<and>
           num_scps_computed self' = num_scps_computed self \<and>
           (\<exists>n. calls self' = calls self @ replicate n EvaluateStoredCPHs)"
proof -
  let ?ids = "get_abstract_state_ids_fn ext (abstraction_functions self)
                (convert_global_state ext gs)"
  from assms have ids: "abstract_state_ids_for ext self gs = Inr ?ids"
    by (simp add: abstract_state_ids_for_def)
  show ?thesis
  proof (cases "is_unsolvable ext ?ids")
    case True
    with ids assms have "compute_heuristic ext self gs elapsed = Inr (DEAD_END, self)"
      by (simp add: compute_heuristic_def bindE_Inr)
    moreover have "calls self = calls self @ replicate 0 EvaluateStoredCPHs" by simp
    ultimately show ?thesis using assms by blast
  next
    case False
    let ?self' = "self\<lparr>calls := calls self @ [EvaluateStoredCPHs],
                        num_evaluated_states := num_evaluated_states self + 1\<rparr>"
    from False ids assms have "compute_heuristic ext self gs elapsed =
        Inr (compute_max_h_with_statistics ext (cp_heuristics self) ?ids, ?self')"
      by (simp add: compute_heuristic_def bindE_Inr Let_def)
    moreover have "calls ?self' = calls self @ replicate 1 EvaluateStoredCPHs" by simp
    moreover have "\<not> improve_heuristic ?self'" "abstractions ?self' = []"
      "abstraction_functions ?self' \<noteq> []" "cp_heuristics ?self' = cp_heuristics self"
      "num_scps_computed ?self' = num_scps_computed self"
      using assms by simp_all
    ultimately show ?thesis by blast
  qed
qed

lemma compute_heuristics_after_stop:
  "\<not> improve_heuristic self \<Longrightarrow> abstractions self = [] \<Longrightarrow> abstraction_functions self \<noteq> [] \<Longrightarrow>
   \<exists>rs self'. compute_heuristics ext self queries = Inr (rs, self') \<and>
      \<not> improve_heuristic self' \<and>
      cp_heuristics self' = cp_heuristics self \<and>
      num_scps_computed self' = num_scps_computed self \<and>
      (\<exists>n. calls self' = calls self @ replicate n EvaluateStoredCPHs)"
proof (induction queries arbitrary: self)
  case Nil
  have "calls self = calls self @ replicate 0 EvaluateStoredCPHs" by simp
  with Nil show ?case by (simp del: replicate_0)
next
  case (Cons q queries)
  from compute_heuristic_after_stop[OF Cons.prems, of ext "fst q" "snd q"]
  obtain r self1 n1 where
    c: "compute_heuristic ext self (fst q) (snd q) = Inr (r, self1)" and
    inv: "\<not> improve_heuristic self1" "abstractions self1 = []"
      "abstraction_functions self1 \<noteq> []" and
    same: "cp_heuristics self1 = cp_heuristics self"
      "num_scps_computed self1 = num_scps_computed self" and
    calls1: "calls self1 = calls self @ replicate n1 EvaluateStoredCPHs"
    by blast
  from Cons.IH[OF inv] obtain rs self' n2 where
    cs: "compute_heuristics ext self1 queries = Inr (rs, self')" and
    inv': "\<not> improve_heuristic self'" and
    same': "cp_heuristics self' = cp_heuristics self1"
      "num_scps_computed self' = num_scps_computed self1" and
    calls2: "calls self' = calls self1 @ replicate n2 EvaluateStoredCPHs"
    by blast
  from c cs have "compute_heuristics ext self (q # queries) = Inr (r # rs, self')"
    by (simp add: bindE_Inr)
  moreover from calls1 calls2
  have "calls self' = calls self @ replicate (n1 + n2) EvaluateStoredCPHs"
    by (simp add: replicate_add)
  ultimately show ?case using inv' same same' by (metis (no_types, lifting))
qed


lemma improvement_ended:
  assumes "improve_heuristic self" "compute_heuristic ext self gs elapsed = Inr (r, self')"
    "\<not> improve_heuristic self'"
  shows "(max_time self \<le> elapsed \<or> max_size_kb self \<le> size_kb self) \<and>
    abstraction_functions self' =
      map (\<lambda>i. if i \<in> set (unsolvability_useful ext) \<union>
                       (\<Union>cp \<in> set (cp_heuristics self). set (cph_useful ext cp))
                then Some (extract_abstraction_function ext (abstractions self ! i))
                else None) [0 ..< length (abstractions self)] \<and>
    abstractions self' = [] \<and> fact_id_offsets self' = [] \<and>
    seen_facts self' = [] \<and> seen_fact_pairs self' = [] \<and>
    cp_heuristics self' = cp_heuristics self \<and>
    num_scps_computed self' = num_scps_computed self \<and>
    calls self' = calls self @ [EvaluateStoredCPHs] \<and>
    (\<forall>queries. \<exists>rs self''.
       compute_heuristics ext self' queries = Inr (rs, self'') \<and>
       \<not> improve_heuristic self'' \<and>
       cp_heuristics self'' = cp_heuristics self' \<and>
       num_scps_computed self'' = num_scps_computed self' \<and>
       (\<exists>n. calls self'' = calls self' @ replicate n EvaluateStoredCPHs))"
proof -
  let ?self1 = "self\<lparr>calls := calls self @ [EvaluateStoredCPHs]\<rparr>"
  from assms(2) obtain ids where ids: "abstract_state_ids_for ext self gs = Inr ids"
    by (auto simp: compute_heuristic_def bindE_Inr_iff)
  from ids assms(1) have nonempty: "abstractions self \<noteq> []"
    by (auto simp: abstract_state_ids_for_def split: if_splits)
  have alive: "\<not> is_unsolvable ext ids"
  proof
    assume "is_unsolvable ext ids"
    with assms(2) ids have "self' = self" by (simp add: compute_heuristic_def bindE_Inr)
    with assms(1,3) show False by simp
  qed
  let ?max_h = "compute_max_h_with_statistics ext (cp_heuristics self) ids"
  from compute_heuristic_alive[OF assms(2) ids alive] obtain self2 self3 where
    s2: "(if improve_heuristic self \<and> (max_time self \<le> elapsed \<or> max_size_kb self \<le> size_kb self)
     then stop_improvement ext ?self1 else Inr ?self1) = Inr self2" and
    s3: "(if improve_heuristic self2 \<and> should_compute_scp self2 gs = Inr True
     then improve_with_scp ext self2 ids ?max_h else (?max_h, self2)) = (r, self3)" and
    s': "self' = self3\<lparr>num_evaluated_states := num_evaluated_states self3 + 1\<rparr>" by blast
  have i3: "improve_heuristic self3 = improve_heuristic self2"
  proof (cases "improve_heuristic self2 \<and> should_compute_scp self2 gs = Inr True")
    case True
    with s3 have "improve_with_scp ext self2 ids ?max_h = (r, self3)" by simp
    from improve_with_scp_frame(3)[OF this] show ?thesis .
  next
    case False
    with s3 show ?thesis by auto
  qed
  with s' assms(3) have n2: "\<not> improve_heuristic self2" by simp
  have cond: "max_time self \<le> elapsed \<or> max_size_kb self \<le> size_kb self"
  proof (rule ccontr)
    assume "\<not> ?thesis"
    with s2 have "self2 = ?self1" by simp
    with n2 assms(1) show False by simp
  qed
  with s2 assms(1) have stop: "stop_improvement ext ?self1 = Inr self2" by simp
  note res = stop_improvement_result[OF stop]
  from n2 s3 have "self3 = self2" by simp
  with s' have s'': "self' = self2\<lparr>num_evaluated_states := num_evaluated_states self2 + 1\<rparr>"
    by simp
  from res(10) have fns: "abstraction_functions self2 =
      map (\<lambda>i. if i \<in> set (unsolvability_useful ext) \<union>
                       (\<Union>cp \<in> set (cp_heuristics self). set (cph_useful ext cp))
                then Some (extract_abstraction_function ext (abstractions self ! i))
                else None) [0 ..< length (abstractions self)]"
    using extract_useful_abstraction_functions_result[of ext "cp_heuristics ?self1"
        "abstractions ?self1" "abstraction_functions ?self1" "abstraction_functions self2"]
    by simp
  with nonempty have ne: "abstraction_functions self' \<noteq> []" using s'' by simp
  from s'' res have inv: "\<not> improve_heuristic self'" "abstractions self' = []" by simp_all
  have later: "\<exists>rs self''.
       compute_heuristics ext self' queries = Inr (rs, self'') \<and>
       \<not> improve_heuristic self'' \<and>
       cp_heuristics self'' = cp_heuristics self' \<and>
       num_scps_computed self'' = num_scps_computed self' \<and>
       (\<exists>n. calls self'' = calls self' @ replicate n EvaluateStoredCPHs)" for queries
    using inv ne by (rule compute_heuristics_after_stop)
  from s'' res fns have fields:
    "abstraction_functions self' =
      map (\<lambda>i. if i \<in> set (unsolvability_useful ext) \<union>
                       (\<Union>cp \<in> set (cp_heuristics self). set (cph_useful ext cp))
                then Some (extract_abstraction_function ext (abstractions self ! i))
                else None) [0 ..< length (abstractions self)]"
    "abstractions self' = []" "fact_id_offsets self' = []"
    "seen_facts self' = []" "seen_fact_pairs self' = []"
    "cp_heuristics self' = cp_heuristics self"
    "num_scps_computed self' = num_scps_computed self"
    "calls self' = calls self @ [EvaluateStoredCPHs]"
    by simp_all
  from cond fields later show ?thesis by blast
qed

lemma mark_useful_abstractions_succeeds:
  "\<forall>a \<in> set ids. a < length useful \<Longrightarrow> \<exists>useful'. mark_useful_abstractions ids useful = Inr useful'"
  by (induction ids arbitrary: useful) simp_all

lemma mark_all_useful_succeeds:
  "\<forall>cp \<in> set cps. \<forall>a \<in> set (flagged cp). a < length useful \<Longrightarrow>
   \<exists>useful'. mark_all_useful flagged cps useful = Inr useful'"
proof (induction cps arbitrary: useful)
  case Nil
  then show ?case by simp
next
  case (Cons cp cps)
  then have "\<forall>a \<in> set (flagged cp). a < length useful" by simp
  from mark_useful_abstractions_succeeds[OF this] obtain useful1 where
    m: "mark_useful_abstractions (flagged cp) useful = Inr useful1" by blast
  from mark_useful_abstractions_result[OF m] have "length useful1 = length useful" by simp
  with Cons.prems have "\<forall>cp \<in> set cps. \<forall>a \<in> set (flagged cp). a < length useful1" by simp
  from Cons.IH[OF this] m show ?case by (simp add: bindE_Inr)
qed

lemma stop_improvement_succeeds:
  assumes "abstraction_functions self = []"
    "\<forall>a \<in> set (unsolvability_useful ext) \<union>
            (\<Union>cp \<in> set (cp_heuristics self). set (cph_useful ext cp)).
       a < length (abstractions self)"
  shows "\<exists>self'. stop_improvement ext self = Inr self'"
proof -
  from assms(2) have "\<forall>a \<in> set (unsolvability_useful ext).
      a < length (replicate (length (abstractions self)) False)" by simp
  from mark_useful_abstractions_succeeds[OF this] obtain useful0 where
    m0: "mark_useful_abstractions (unsolvability_useful ext)
           (replicate (length (abstractions self)) False) = Inr useful0" by blast
  from mark_useful_abstractions_result[OF m0]
  have l0: "length useful0 = length (abstractions self)" by simp
  with assms(2) have "\<forall>cp \<in> set (cp_heuristics self). \<forall>a \<in> set (cph_useful ext cp).
      a < length useful0" by auto
  from mark_all_useful_succeeds[OF this] obtain useful where
    m: "mark_all_useful (cph_useful ext) (cp_heuristics self) useful0 = Inr useful" by blast
  from m0 m assms(1) show ?thesis
    by (simp add: stop_improvement_def extract_useful_abstraction_functions_def bindE_Inr
        Let_def)
qed


text \<open>
  C5, as amended. In the improvement phase, with the abstractions flagged useful being
  abstractions of the heuristic: a query that is a dead end returns before the limits are
  tested and leaves the object, and so the flag \<^verbatim>\<open>improve_heuristic\<close>, as it was; a
  query that is no dead end and at which neither limit is reached leaves the flag set; and
  a query that is no dead end and at which the timer has reached \<^verbatim>\<open>max_time\<close> or
  \<^verbatim>\<open>size_kb\<close> has reached \<^verbatim>\<open>max_size_kb\<close> returns the maximum over the stored
  heuristics and ends the phase. Then the abstraction function of abstraction \<open>i\<close> is
  extracted exactly when \<open>i\<close> is flagged useful by the unsolvability heuristic or by a
  stored cost-partitioning heuristic, and is null otherwise; the abstractions, the fact id
  offsets and both novelty structures are released; the call computes and stores no cost
  partitioning; and every later sequence of calls of \<^verbatim>\<open>compute_heuristic\<close> returns
  normally with the flag still clear, the same stored heuristics, the same
  \<^verbatim>\<open>num_scps_computed\<close>, and nothing but evaluations of the stored heuristics in the log
  of calls.
\<close>

theorem improvement_ends_for_good:
  assumes "improve_heuristic self" "abstract_state_ids_for ext self gs = Inr ids"
    "\<forall>a \<in> set (unsolvability_useful ext) \<union>
            (\<Union>cp \<in> set (cp_heuristics self). set (cph_useful ext cp)).
       a < length (abstractions self)"
  shows
   "(is_unsolvable ext ids \<longrightarrow> compute_heuristic ext self gs elapsed = Inr (DEAD_END, self)) \<and>
    (\<not> is_unsolvable ext ids \<and> elapsed < max_time self \<and> size_kb self < max_size_kb self \<longrightarrow>
       (\<forall>r self'. compute_heuristic ext self gs elapsed = Inr (r, self') \<longrightarrow>
          improve_heuristic self')) \<and>
    (\<not> is_unsolvable ext ids \<and>
     (max_time self \<le> elapsed \<or> max_size_kb self \<le> size_kb self) \<longrightarrow>
       (\<exists>self'. compute_heuristic ext self gs elapsed =
                  Inr (compute_max_h_with_statistics ext (cp_heuristics self) ids, self') \<and>
          \<not> improve_heuristic self' \<and>
          abstraction_functions self' =
            map (\<lambda>i. if i \<in> set (unsolvability_useful ext) \<union>
                             (\<Union>cp \<in> set (cp_heuristics self). set (cph_useful ext cp))
                      then Some (extract_abstraction_function ext (abstractions self ! i))
                      else None) [0 ..< length (abstractions self)] \<and>
          abstractions self' = [] \<and> fact_id_offsets self' = [] \<and>
          seen_facts self' = [] \<and> seen_fact_pairs self' = [] \<and>
          cp_heuristics self' = cp_heuristics self \<and>
          num_scps_computed self' = num_scps_computed self \<and>
          calls self' = calls self @ [EvaluateStoredCPHs] \<and>
          (\<forall>queries. \<exists>rs self''.
             compute_heuristics ext self' queries = Inr (rs, self'') \<and>
             \<not> improve_heuristic self'' \<and>
             cp_heuristics self'' = cp_heuristics self' \<and>
             num_scps_computed self'' = num_scps_computed self' \<and>
             (\<exists>n. calls self'' = calls self' @ replicate n EvaluateStoredCPHs))))"
proof (intro conjI impI)
  assume "is_unsolvable ext ids"
  with assms(2) show "compute_heuristic ext self gs elapsed = Inr (DEAD_END, self)"
    by (simp add: compute_heuristic_def bindE_Inr)
next
  assume a: "\<not> is_unsolvable ext ids \<and> elapsed < max_time self \<and>
             size_kb self < max_size_kb self"
  show "\<forall>r self'. compute_heuristic ext self gs elapsed = Inr (r, self') \<longrightarrow>
          improve_heuristic self'"
  proof (intro allI impI, rule ccontr)
    fix r self'
    assume "compute_heuristic ext self gs elapsed = Inr (r, self')" "\<not> improve_heuristic self'"
    from improvement_ended[OF assms(1) this]
    have "max_time self \<le> elapsed \<or> max_size_kb self \<le> size_kb self" by blast
    with a show False by simp
  qed
next
  assume a: "\<not> is_unsolvable ext ids \<and>
             (max_time self \<le> elapsed \<or> max_size_kb self \<le> size_kb self)"
  let ?self1 = "self\<lparr>calls := calls self @ [EvaluateStoredCPHs]\<rparr>"
  let ?max_h = "compute_max_h_with_statistics ext (cp_heuristics self) ids"
  from assms(1,2) have "abstraction_functions self = []"
    by (auto simp: abstract_state_ids_for_def split: if_splits)
  then have e: "abstraction_functions ?self1 = []" by simp
  from assms(3) have "\<forall>a \<in> set (unsolvability_useful ext) \<union>
            (\<Union>cp \<in> set (cp_heuristics ?self1). set (cph_useful ext cp)).
       a < length (abstractions ?self1)" by simp
  from stop_improvement_succeeds[OF e this] obtain self2 where
    stop: "stop_improvement ext ?self1 = Inr self2" by blast
  from stop_improvement_result(1)[OF stop] have n2: "\<not> improve_heuristic self2" .
  let ?self' = "self2\<lparr>num_evaluated_states := num_evaluated_states self2 + 1\<rparr>"
  from a assms(1,2) stop n2 have ch: "compute_heuristic ext self gs elapsed = Inr (?max_h, ?self')"
    by (simp add: compute_heuristic_def bindE_Inr Let_def)
  from n2 have n': "\<not> improve_heuristic ?self'" by simp
  note facts = improvement_ended[OF assms(1) ch n']
  show "\<exists>self'. compute_heuristic ext self gs elapsed = Inr (?max_h, self') \<and>
          \<not> improve_heuristic self' \<and>
          abstraction_functions self' =
            map (\<lambda>i. if i \<in> set (unsolvability_useful ext) \<union>
                             (\<Union>cp \<in> set (cp_heuristics self). set (cph_useful ext cp))
                      then Some (extract_abstraction_function ext (abstractions self ! i))
                      else None) [0 ..< length (abstractions self)] \<and>
          abstractions self' = [] \<and> fact_id_offsets self' = [] \<and>
          seen_facts self' = [] \<and> seen_fact_pairs self' = [] \<and>
          cp_heuristics self' = cp_heuristics self \<and>
          num_scps_computed self' = num_scps_computed self \<and>
          calls self' = calls self @ [EvaluateStoredCPHs] \<and>
          (\<forall>queries. \<exists>rs self''.
             compute_heuristics ext self' queries = Inr (rs, self'') \<and>
             \<not> improve_heuristic self'' \<and>
             cp_heuristics self'' = cp_heuristics self' \<and>
             num_scps_computed self'' = num_scps_computed self' \<and>
             (\<exists>n. calls self'' = calls self' @ replicate n EvaluateStoredCPHs))"
    by (rule exI[of _ ?self'], rule conjI[OF ch], rule conjI[OF n'],
        rule facts[THEN conjunct2])
qed

theorem improvement_ends_for_good_witness:
  "compute_heuristic example_env example_online [1, 1] 11 = Inr (DEAD_END, example_online) \<and>
   (\<exists>r self'. compute_heuristic example_env example_online [1, 0] 0 = Inr (r, self') \<and>
      improve_heuristic self') \<and>
   (\<exists>self'. compute_heuristic example_env example_online [0, 0] 10 = Inr (1, self') \<and>
      \<not> improve_heuristic self' \<and>
      abstraction_functions self' = [Some 0, None] \<and> abstractions self' = [] \<and>
      (\<exists>rs self''. compute_heuristics example_env self' [([1, 0], 12), ([0, 0], 13)]
                    = Inr (rs, self'') \<and>
        \<not> improve_heuristic self'' \<and> cp_heuristics self'' = [[1, 0]] \<and>
        num_scps_computed self'' = 0))"
proof -
  have i: "improve_heuristic example_online" by (simp add: example_online_def)
  have flagged: "\<forall>a \<in> set (unsolvability_useful example_env) \<union>
            (\<Union>cp \<in> set (cp_heuristics example_online). set (cph_useful example_env cp)).
       a < length (abstractions example_online)"
    by (simp add: example_env_def example_online_def)
  have ids: "abstract_state_ids_for example_env example_online [1, 1] = Inr [1, 1]"
    "abstract_state_ids_for example_env example_online [1, 0] = Inr [1, 0]"
    "abstract_state_ids_for example_env example_online [0, 0] = Inr [0, 0]"
    by (simp_all add: example_online_simps)
  have dead: "compute_heuristic example_env example_online [1, 1] 11
                = Inr (DEAD_END, example_online)"
    using improvement_ends_for_good[OF i ids(1) flagged, of 11]
    by (simp add: example_env_def)
  have trig: "abstract_state_ids_for example_env example_online [1, 0] = Inr [1, 0]"
    "\<not> is_unsolvable example_env [1, 0]" "improve_heuristic example_online"
    "0 < max_time example_online" "size_kb example_online < max_size_kb example_online"
    "should_compute_scp example_online [1, 0] = Inr True"
    by (simp_all add: example_online_simps)
  obtain m self3 where "improve_with_scp example_env
       (example_online\<lparr>calls := calls example_online @ [EvaluateStoredCPHs]\<rparr>) [1, 0]
       (compute_max_h_with_statistics example_env (cp_heuristics example_online) [1, 0])
       = (m, self3)" by (metis surj_pair)
  from compute_heuristic_triggered[OF trig this]
  have ret: "compute_heuristic example_env example_online [1, 0] 0 =
             Inr (m, self3\<lparr>num_evaluated_states := num_evaluated_states self3 + 1\<rparr>)" .
  from improvement_ends_for_good[OF i ids(2) flagged, of 0] trig(2,4,5) ret
  have "improve_heuristic (self3\<lparr>num_evaluated_states := num_evaluated_states self3 + 1\<rparr>)"
    by blast
  with ret have going: "\<exists>r self'. compute_heuristic example_env example_online [1, 0] 0
      = Inr (r, self') \<and> improve_heuristic self'" by blast
  have alive: "\<not> is_unsolvable example_env [0, 0]"
    "max_time example_online \<le> 10 \<or> max_size_kb example_online \<le> size_kb example_online"
    by (simp_all add: example_env_def example_online_def)
  have mh: "compute_max_h_with_statistics example_env (cp_heuristics example_online) [0, 0] = 1"
    by (simp add: example_online_simps)
  from improvement_ends_for_good[OF i ids(3) flagged, of 10] alive mh
  obtain self' where
    c: "compute_heuristic example_env example_online [0, 0] 10 = Inr (1, self')" and
    n: "\<not> improve_heuristic self'" and
    f: "abstraction_functions self' =
            map (\<lambda>i. if i \<in> set (unsolvability_useful example_env) \<union>
                             (\<Union>cp \<in> set (cp_heuristics example_online).
                                 set (cph_useful example_env cp))
                      then Some (extract_abstraction_function example_env
                                   (abstractions example_online ! i))
                      else None) [0 ..< length (abstractions example_online)]"
      "abstractions self' = []" and
    same: "cp_heuristics self' = cp_heuristics example_online"
      "num_scps_computed self' = num_scps_computed example_online" and
    later: "\<forall>queries. \<exists>rs self''.
             compute_heuristics example_env self' queries = Inr (rs, self'') \<and>
             \<not> improve_heuristic self'' \<and>
             cp_heuristics self'' = cp_heuristics self' \<and>
             num_scps_computed self'' = num_scps_computed self' \<and>
             (\<exists>n. calls self'' = calls self' @ replicate n EvaluateStoredCPHs)"
    by auto
  from f(1) have f1: "abstraction_functions self' = [Some 0, None]"
    by (simp add: example_env_def example_online_def upt_2)
  from later same have "\<exists>rs self''.
        compute_heuristics example_env self' [([1, 0], 12), ([0, 0], 13)] = Inr (rs, self'') \<and>
        \<not> improve_heuristic self'' \<and> cp_heuristics self'' = [[1, 0]] \<and>
        num_scps_computed self'' = 0"
    by (metis (no_types, lifting) example_online_def Online.select_convs(4,13))
  with c n f1 f(2) have ends: "\<exists>self'. compute_heuristic example_env example_online [0, 0] 10
        = Inr (1, self') \<and>
      \<not> improve_heuristic self' \<and>
      abstraction_functions self' = [Some 0, None] \<and> abstractions self' = [] \<and>
      (\<exists>rs self''. compute_heuristics example_env self' [([1, 0], 12), ([0, 0], 13)]
                    = Inr (rs, self'') \<and>
        \<not> improve_heuristic self'' \<and> cp_heuristics self'' = [[1, 0]] \<and>
        num_scps_computed self'' = 0)" by blast
  from dead going ends show ?thesis by blast
qed

text \<open>
  C5, as stated, fails: the phase does not end at the first query at which a limit is
  reached when that query is a dead end. With \<^verbatim>\<open>max_time\<close> 10 and the timer at 11, the
  query of the unsolvable state returns \<open>DEAD_END\<close> and the flag is still set.
\<close>

theorem improvement_survives_dead_end_counterexample:
  "max_time example_online \<le> 11 \<and> improve_heuristic example_online \<and>
   compute_heuristic example_env example_online [1, 1] 11 = Inr (DEAD_END, example_online)"
  by (simp add: compute_heuristic_def bindE_def example_online_simps)

end
